theory Spec2Isabelle
  imports Main
begin

section \<open>Data model of \<open>mod.ts\<close>\<close>

text \<open>
  The flag word of a computation is a bit set over the constants of \<open>const enum Flags\<close>.
  It is modelled as a set of flags: \<open>f & ~X\<close> is \<open>f - {X}\<close>, \<open>f | X\<close> is
  \<open>f \<union> {X}\<close>, the test \<open>f & X\<close> is \<open>X \<in> f\<close>.
\<close>

datatype flag = RUNNING | DIRTY | MAYBE_DIRTY | TRACKING | NOTIFIED | DISPOSED | HAS_ERROR

text \<open>
  Values held by signals, returned by compute functions and thrown as errors. Strict
  equality \<open>!==\<close> of the source is HOL equality on this type: numbers are integers (no
  NaN), objects are compared by their reference.
\<close>

datatype val = Undefined | Num int | Str string | Obj nat

text \<open>The three classes. \<open>Computed\<close> extends \<open>Signal\<close>; \<open>Effect\<close> stands alone.\<close>

datatype kind = KSignal | KComputed | KEffect

text \<open>
  One heap object. The fields are the union of the fields of the three classes, named as
  in the source without the leading underscore; object references are heap addresses.
  The compute function of a computation is found through its address, a cleanup function
  through the identifier stored in \<open>cleanups\<close> (see \<open>env\<close> below).
\<close>

record node =
  kind :: kind
  epoch :: int
  access_epoch :: int
  dependants :: "nat list"
  stored :: val
  dependencies :: "nat list"
  flags :: "flag set"
  realm_write_epoch :: int
  context_epoch :: int
  cleanups :: "nat list"
  next_batched_effect :: "nat option"

text \<open>The module-level variables, and the heap.\<close>

record state =
  nodes :: "nat \<Rightarrow> node"
  eval_listener :: "nat option"
  eval_sources_index :: nat
  eval_untracked_sources :: "nat list option"
  batched_effect :: "nat option"
  batch_depth :: int
  batch_iteration :: int
  write_clock :: int
  read_clock :: int

text \<open>A call either returns or throws a value.\<close>

datatype 'a outcome = Returns 'a | Throws val

text \<open>
  The functions supplied by the client: the compute function of each \<open>Computed\<close> and
  \<open>Effect\<close> (applied to the previous value) and the registered cleanup functions. They
  run arbitrary client code against the module state, so each is a state transformer with
  an outcome; \<open>None\<close> stands for a call that yields no result.
\<close>

record env =
  compute :: "nat \<Rightarrow> val \<Rightarrow> state \<Rightarrow> (val outcome \<times> state) option"
  cleanup_fn :: "nat \<Rightarrow> state \<Rightarrow> (unit outcome \<times> state) option"

definition upd_node :: "nat \<Rightarrow> (node \<Rightarrow> node) \<Rightarrow> state \<Rightarrow> state" where
  "upd_node x f s = s\<lparr>nodes := (nodes s)(x := f (nodes s x))\<rparr>"

text \<open>
  \<open>for (let i = 0, ilen = xs.length; i < ilen; i++) body(xs[i])\<close>, for a body that may
  yield no result. None of the loops of this shape changes the array it walks.
\<close>

fun for_each :: "('a \<Rightarrow> 's \<Rightarrow> 's option) \<Rightarrow> 'a list \<Rightarrow> 's \<Rightarrow> 's option" where
  "for_each body [] s = Some s"
| "for_each body (x # xs) s =
     (case body x s of None \<Rightarrow> None | Some s' \<Rightarrow> for_each body xs s')"

subsection \<open>Array primitives\<close>

text \<open>\<open>Array.prototype.indexOf\<close>: the first index holding the element, or \<open>-1\<close>.\<close>

fun indexOf :: "'a list \<Rightarrow> 'a \<Rightarrow> int" where
  "indexOf [] x = - 1"
| "indexOf (y # ys) x =
     (if y = x then 0 else (let i = indexOf ys x in if i < 0 then - 1 else i + 1))"

text \<open>
  \<open>Array.prototype.splice(start, deleteCount)\<close>: a negative start counts from the end
  (clamped at 0), a start beyond the end is the end, and the count is clamped to what is
  left.
\<close>

definition array_splice :: "'a list \<Rightarrow> int \<Rightarrow> int \<Rightarrow> 'a list" where
  "array_splice xs start deleteCount =
     (let len = int (length xs);
          from = (if start < 0 then max (len + start) 0 else min start len);
          cnt = min (max deleteCount 0) (len - from)
      in take (nat from) xs @ drop (nat (from + cnt)) xs)"

section \<open>Signal\<close>

definition start_batch :: "state \<Rightarrow> state" where
  "start_batch s = s\<lparr>batch_depth := batch_depth s + 1\<rparr>"

definition signal_subscribe :: "nat \<Rightarrow> nat \<Rightarrow> state \<Rightarrow> state" where
  "signal_subscribe x target s =
     upd_node x (\<lambda>n. n\<lparr>dependants := dependants n @ [target]\<rparr>) s"

definition signal_unsubscribe :: "nat \<Rightarrow> nat \<Rightarrow> state \<Rightarrow> state" where
  "signal_unsubscribe x target s =
     (let index = indexOf (dependants (nodes s x)) target
      in upd_node x (\<lambda>n. n\<lparr>dependants := array_splice (dependants n) index 1\<rparr>) s)"

definition signal_peek :: "nat \<Rightarrow> state \<Rightarrow> val \<times> state" where
  "signal_peek x s = (stored (nodes s x), s)"

text \<open>
  The getter \<open>Signal.value\<close>. An index at or past the end of the listener's dependency
  array reads \<open>undefined\<close>, which is not the signal.
\<close>

definition signal_get :: "nat \<Rightarrow> state \<Rightarrow> val \<times> state" where
  "signal_get x s =
     (case eval_listener s of
        None \<Rightarrow> (stored (nodes s x), s)
      | Some l \<Rightarrow>
          if context_epoch (nodes s l) \<noteq> access_epoch (nodes s x) then
            (let s1 = upd_node x (\<lambda>n. n\<lparr>access_epoch := context_epoch (nodes s l)\<rparr>) s;
                 deps = dependencies (nodes s1 l);
                 i = eval_sources_index s1;
                 s2 = (case eval_untracked_sources s1 of
                         Some buf \<Rightarrow> s1\<lparr>eval_untracked_sources := Some (buf @ [x])\<rparr>
                       | None \<Rightarrow>
                           if i < length deps \<and> deps ! i = x
                           then s1\<lparr>eval_sources_index := i + 1\<rparr>
                           else s1\<lparr>eval_untracked_sources := Some [x]\<rparr>)
             in (stored (nodes s2 x), s2))
          else (stored (nodes s x), s))"

section \<open>Subscription of computed signals\<close>

text \<open>
  \<open>_subscribe\<close> and \<open>_unsubscribe\<close> are dispatched on the class of the source. The
  methods of \<open>Computed\<close> recurse through the dependency graph, which may be cyclic (a
  compute function that reads its own signal records itself as a dependency); the
  recursion is bounded by fuel and yields \<open>None\<close> when the fuel runs out. An \<open>Effect\<close>
  is not a \<open>Signal\<close> and has neither method.
\<close>

primrec subscribe :: "nat \<Rightarrow> nat \<Rightarrow> nat \<Rightarrow> state \<Rightarrow> state option" where
  "subscribe 0 x target s = None"
| "subscribe (Suc fuel) x target s =
     (case kind (nodes s x) of
        KSignal \<Rightarrow> Some (signal_subscribe x target s)
      | KComputed \<Rightarrow>
          if length (dependants (nodes s x)) < 1 then
            (let s1 = upd_node x (\<lambda>n. n\<lparr>flags := flags n \<union> {TRACKING}\<rparr>) s
             in case for_each (\<lambda>dep. subscribe fuel dep x) (dependencies (nodes s x)) s1 of
                  None \<Rightarrow> None
                | Some s2 \<Rightarrow> Some (signal_subscribe x target s2))
          else Some (signal_subscribe x target s)
      | KEffect \<Rightarrow> None)"

primrec unsubscribe :: "nat \<Rightarrow> nat \<Rightarrow> nat \<Rightarrow> state \<Rightarrow> state option" where
  "unsubscribe 0 x target s = None"
| "unsubscribe (Suc fuel) x target s =
     (case kind (nodes s x) of
        KSignal \<Rightarrow> Some (signal_unsubscribe x target s)
      | KComputed \<Rightarrow>
          (let s1 = signal_unsubscribe x target s
           in if length (dependants (nodes s1 x)) < 1 then
                (let s2 = upd_node x (\<lambda>n. n\<lparr>flags := flags n - {TRACKING}\<rparr>) s1
                 in for_each (\<lambda>dep. unsubscribe fuel dep x) (dependencies (nodes s1 x)) s2)
              else Some s1)
      | KEffect \<Rightarrow> None)"

section \<open>Notification\<close>

definition effect_notify :: "nat \<Rightarrow> flag \<Rightarrow> state \<Rightarrow> state" where
  "effect_notify e flag s =
     (if flags (nodes s e) \<inter> {NOTIFIED, RUNNING} = {} then
        (upd_node e (\<lambda>n. n\<lparr>flags := flags n \<union> {flag, NOTIFIED},
                              next_batched_effect := batched_effect s\<rparr>) s)
          \<lparr>batched_effect := Some e\<rparr>
      else s)"

text \<open>
  \<open>_notify\<close>, dispatched on the class of the dependant. A plain \<open>Signal\<close> is not a
  computation and has no such method.
\<close>

primrec notify :: "nat \<Rightarrow> nat \<Rightarrow> flag \<Rightarrow> state \<Rightarrow> state option" where
  "notify 0 x flag s = None"
| "notify (Suc fuel) x flag s =
     (case kind (nodes s x) of
        KEffect \<Rightarrow> Some (effect_notify x flag s)
      | KComputed \<Rightarrow>
          if flags (nodes s x) \<inter> {NOTIFIED, RUNNING} = {} then
            (let s1 = upd_node x (\<lambda>n. n\<lparr>flags := flags n \<union> {flag, NOTIFIED}\<rparr>) s
             in for_each (\<lambda>dep. notify fuel dep MAYBE_DIRTY) (dependants (nodes s x)) s1)
          else Some s
      | KSignal \<Rightarrow> None)"

section \<open>Staleness\<close>

text \<open>
  The loop of \<open>is_stale\<close> over the dependencies of the target; \<open>rf\<close> is the
  \<open>_refresh\<close> method of a source. The epochs are read when the source is reached.
\<close>

fun stale_walk ::
  "(nat \<Rightarrow> state \<Rightarrow> (bool \<times> state) option) \<Rightarrow> nat \<Rightarrow> nat list \<Rightarrow> state \<Rightarrow> (bool \<times> state) option"
where
  "stale_walk rf target [] s = Some (False, s)"
| "stale_walk rf target (source # rest) s =
     (if epoch (nodes s source) > epoch (nodes s target) then Some (True, s)
      else case rf source s of
             None \<Rightarrow> None
           | Some (changed, s') \<Rightarrow>
               if changed then Some (True, s') else stale_walk rf target rest s')"

definition is_stale ::
  "(nat \<Rightarrow> state \<Rightarrow> (bool \<times> state) option) \<Rightarrow> nat \<Rightarrow> flag set \<Rightarrow> state \<Rightarrow> (bool \<times> state) option"
where
  "is_stale rf target fl s =
     (if DIRTY \<in> fl then Some (True, s)
      else if MAYBE_DIRTY \<in> fl then stale_walk rf target (dependencies (nodes s target)) s
      else Some (False, s))"

section \<open>Reconciliation of the dependencies after a run\<close>

text \<open>Both functions work on \<open>eval_listener!\<close>; without a listener there is no result.\<close>

definition prune_context_sources :: "nat \<Rightarrow> state \<Rightarrow> state option" where
  "prune_context_sources fuel s =
     (case eval_listener s of
        None \<Rightarrow> None
      | Some l \<Rightarrow> for_each (\<lambda>dep. unsubscribe fuel dep l) (dependencies (nodes s l)) s)"

text \<open>
  With new dependencies and a cursor past 0, the array is resized to cursor plus buffer
  length and the buffer is written behind the cursor; a cursor past the end of the old
  array (which tracking never produces, and which would leave holes) has no result here.
\<close>

definition cleanup_context :: "nat \<Rightarrow> state \<Rightarrow> state option" where
  "cleanup_context fuel s =
     (case eval_listener s of
        None \<Rightarrow> None
      | Some l \<Rightarrow>
          (case eval_untracked_sources s of
             Some buf \<Rightarrow>
               (case prune_context_sources fuel s of
                  None \<Rightarrow> None
                | Some s1 \<Rightarrow>
                    let i = eval_sources_index s1 in
                    if i > length (dependencies (nodes s1 l)) then None
                    else
                      let s2 = (if i > 0
                                then upd_node l (\<lambda>n. n\<lparr>dependencies :=
                                       take i (dependencies n) @ buf\<rparr>) s1
                                else upd_node l (\<lambda>n. n\<lparr>dependencies := buf\<rparr>) s1)
                      in if TRACKING \<in> flags (nodes s2 l)
                         then for_each (\<lambda>dep. subscribe fuel dep l)
                                (drop i (dependencies (nodes s2 l))) s2
                         else Some s2)
           | None \<Rightarrow>
               if eval_sources_index s < length (dependencies (nodes s l)) then
                 (case prune_context_sources fuel s of
                    None \<Rightarrow> None
                  | Some s1 \<Rightarrow>
                      Some (upd_node l (\<lambda>n. n\<lparr>dependencies :=
                              take (eval_sources_index s1) (dependencies n)\<rparr>) s1))
               else Some s))"

section \<open>Computed\<close>

text \<open>
  \<open>Computed._refresh\<close> in two parts. \<open>recompute\<close> is its second half, from the
  saving of the previous value and context to the end: the \<open>try\<close> block is the case
  split on the outcome of the compute function, which is the only call in it that can
  throw. \<open>fl\<close> is the local \<open>flags\<close> of the first half.
\<close>

definition recompute :: "nat \<Rightarrow> env \<Rightarrow> nat \<Rightarrow> flag set \<Rightarrow> state \<Rightarrow> (bool \<times> state) option" where
  "recompute fuel E c fl s2 =
     (let prev_value = stored (nodes s2 c);
          prev_listener = eval_listener s2;
          prev_sources = eval_untracked_sources s2;
          prev_sources_index = eval_sources_index s2;
          s3 = (upd_node c (\<lambda>n. n\<lparr>context_epoch := read_clock s2\<rparr>) s2)
                 \<lparr>read_clock := read_clock s2 + 1,
                  eval_listener := Some c,
                  eval_untracked_sources := None,
                  eval_sources_index := 0\<rparr>
      in case compute E c prev_value s3 of
           None \<Rightarrow> None
         | Some (r, s4) \<Rightarrow>
             let (stale, s5) =
                   (case r of
                      Returns v \<Rightarrow>
                        if HAS_ERROR \<in> fl \<or> prev_value \<noteq> v \<or> epoch (nodes s4 c) = - 1
                        then (True,
                          (upd_node c (\<lambda>n. n\<lparr>stored := v,
                              flags := flags n - {HAS_ERROR},
                              epoch := write_clock s4 + 1,
                              realm_write_epoch := write_clock s4 + 1\<rparr>) s4)
                            \<lparr>write_clock := write_clock s4 + 1\<rparr>)
                        else (False, s4)
                    | Throws err \<Rightarrow>
                        (True,
                          (upd_node c (\<lambda>n. n\<lparr>stored := err,
                              flags := flags n \<union> {HAS_ERROR},
                              epoch := write_clock s4 + 1,
                              realm_write_epoch := write_clock s4 + 1\<rparr>) s4)
                            \<lparr>write_clock := write_clock s4 + 1\<rparr>))
             in case cleanup_context fuel s5 of
                  None \<Rightarrow> None
                | Some s6 \<Rightarrow>
                    Some (stale,
                      upd_node c (\<lambda>n. n\<lparr>flags := flags n - {RUNNING}\<rparr>)
                        (s6\<lparr>eval_listener := prev_listener,
                            eval_untracked_sources := prev_sources,
                            eval_sources_index := prev_sources_index\<rparr>)))"

text \<open>
  The first half; \<open>rf\<close> is the \<open>_refresh\<close> method of the dependencies, used by
  \<open>is_stale\<close>, which is not called for a node that was never computed.
\<close>

definition computed_refresh ::
  "(nat \<Rightarrow> state \<Rightarrow> (bool \<times> state) option) \<Rightarrow> nat \<Rightarrow> env \<Rightarrow> nat \<Rightarrow> state \<Rightarrow> (bool \<times> state) option"
where
  "computed_refresh rf fuel E c s =
     (let fl = flags (nodes s c) - {NOTIFIED};
          s0 = upd_node c (\<lambda>n. n\<lparr>flags := fl\<rparr>) s
      in if realm_write_epoch (nodes s0 c) = write_clock s0
            \<or> fl \<inter> {TRACKING, DIRTY, MAYBE_DIRTY} = {TRACKING}
            \<or> RUNNING \<in> fl
         then Some (False, s0)
         else
           let s1 = upd_node c (\<lambda>n. n\<lparr>flags := (fl - {DIRTY} - {MAYBE_DIRTY}) \<union> {RUNNING},
                                      realm_write_epoch := write_clock s0\<rparr>) s0
           in case (if epoch (nodes s1 c) > - 1 then is_stale rf c fl s1 else Some (True, s1)) of
                None \<Rightarrow> None
              | Some (go, s2) \<Rightarrow>
                  if \<not> go
                  then Some (False, upd_node c (\<lambda>n. n\<lparr>flags := flags n - {RUNNING}\<rparr>) s2)
                  else recompute fuel E c fl s2)"

text \<open>
  \<open>_refresh\<close> of a source: constantly \<open>false\<close> for a plain signal. An effect is never
  a dependency.
\<close>

primrec refresh :: "nat \<Rightarrow> env \<Rightarrow> nat \<Rightarrow> state \<Rightarrow> (bool \<times> state) option" where
  "refresh 0 E x s = None"
| "refresh (Suc fuel) E x s =
     (case kind (nodes s x) of
        KSignal \<Rightarrow> Some (False, s)
      | KComputed \<Rightarrow> computed_refresh (refresh fuel E) fuel E x s
      | KEffect \<Rightarrow> None)"

definition computed_peek :: "nat \<Rightarrow> env \<Rightarrow> nat \<Rightarrow> state \<Rightarrow> (val outcome \<times> state) option" where
  "computed_peek fuel E c s =
     (case computed_refresh (refresh fuel E) fuel E c s of
        None \<Rightarrow> None
      | Some (_, s1) \<Rightarrow>
          if HAS_ERROR \<in> flags (nodes s1 c) then Some (Throws (stored (nodes s1 c)), s1)
          else Some (Returns (stored (nodes s1 c)), s1))"

text \<open>The getter \<open>Computed.value\<close>; both branches read through \<open>super.value\<close>.\<close>

definition computed_get :: "nat \<Rightarrow> env \<Rightarrow> nat \<Rightarrow> state \<Rightarrow> (val outcome \<times> state) option" where
  "computed_get fuel E c s =
     (case computed_refresh (refresh fuel E) fuel E c s of
        None \<Rightarrow> None
      | Some (_, s1) \<Rightarrow>
          if HAS_ERROR \<in> flags (nodes s1 c)
          then (let (v, s2) = signal_get c s1 in Some (Throws v, s2))
          else (let (v, s2) = signal_get c s1 in Some (Returns v, s2)))"

section \<open>Effect\<close>

text \<open>
  \<open>dispose_effect\<close>; \<open>ce\<close> is \<open>cleanup_effect\<close>, called only when \<open>run_cleanup\<close>
  is set.
\<close>

definition dispose_effect ::
  "(nat \<Rightarrow> state \<Rightarrow> (unit outcome \<times> state) option) \<Rightarrow> nat \<Rightarrow> nat \<Rightarrow> bool \<Rightarrow> state
     \<Rightarrow> (unit outcome \<times> state) option"
where
  "dispose_effect ce fuel e run_cleanup s =
     (case for_each (\<lambda>dep. unsubscribe fuel dep e) (dependencies (nodes s e)) s of
        None \<Rightarrow> None
      | Some s1 \<Rightarrow>
          let s2 = upd_node e (\<lambda>n. n\<lparr>dependencies := []\<rparr>) s1
          in if run_cleanup then ce e s2 else Some (Returns (), s2))"

text \<open>The loop over the cleanup functions stops at the first one that throws.\<close>

fun run_cleanups :: "env \<Rightarrow> nat list \<Rightarrow> state \<Rightarrow> (unit outcome \<times> state) option" where
  "run_cleanups E [] s = Some (Returns (), s)"
| "run_cleanups E (f # fs) s =
     (case cleanup_fn E f s of
        None \<Rightarrow> None
      | Some (Throws err, s') \<Rightarrow> Some (Throws err, s')
      | Some (Returns _, s') \<Rightarrow> run_cleanups E fs s')"

text \<open>
  \<open>cleanup_effect\<close>; \<open>eb\<close> is \<open>end_batch\<close>. The \<open>finally\<close> block runs after the
  \<open>try\<close> and after the \<open>catch\<close>; an exception leaving it replaces the pending one.
\<close>

definition cleanup_effect ::
  "(state \<Rightarrow> (unit outcome \<times> state) option) \<Rightarrow> nat \<Rightarrow> env \<Rightarrow> nat \<Rightarrow> state
     \<Rightarrow> (unit outcome \<times> state) option"
where
  "cleanup_effect eb fuel E e s =
     (let cl = cleanups (nodes s e)
      in if length cl > 0 then
           (let prev_listener = eval_listener s;
                s1 = (start_batch s)\<lparr>eval_listener := None\<rparr>
            in case run_cleanups E cl s1 of
                 None \<Rightarrow> None
               | Some (r, s2) \<Rightarrow>
                   (case (case r of
                            Returns _ \<Rightarrow> Some (Returns (), s2)
                          | Throws err \<Rightarrow>
                              (case dispose_effect (\<lambda>_ _. None) fuel e False
                                      (upd_node e (\<lambda>n. n\<lparr>flags :=
                                         (flags n - {RUNNING}) \<union> {DISPOSED}\<rparr>) s2) of
                                 None \<Rightarrow> None
                               | Some (Throws x, s3) \<Rightarrow> Some (Throws x, s3)
                               | Some (Returns _, s3) \<Rightarrow> Some (Throws err, s3))) of
                      None \<Rightarrow> None
                    | Some (pending, s4) \<Rightarrow>
                        let s5 = (upd_node e (\<lambda>n. n\<lparr>cleanups := []\<rparr>) s4)
                                   \<lparr>eval_listener := prev_listener\<rparr>
                        in (case eb s5 of
                              None \<Rightarrow> None
                            | Some (Throws x, s6) \<Rightarrow> Some (Throws x, s6)
                            | Some (Returns _, s6) \<Rightarrow> Some (pending, s6))))
         else Some (Returns (), s))"

text \<open>
  \<open>Effect._refresh\<close> in two parts; \<open>eb\<close> is \<open>end_batch\<close>. \<open>effect_finally\<close> is
  its \<open>finally\<close> block, entered with the saved context and the pending outcome of the
  \<open>try\<close> block. An exception from \<open>dispose_effect\<close> skips the closing
  \<open>end_batch\<close>, and an exception leaving the block replaces the pending one.
\<close>

definition effect_finally ::
  "(state \<Rightarrow> (unit outcome \<times> state) option) \<Rightarrow> nat \<Rightarrow> env \<Rightarrow> nat
     \<Rightarrow> nat option \<Rightarrow> nat list option \<Rightarrow> nat \<Rightarrow> unit outcome \<Rightarrow> state
     \<Rightarrow> (unit outcome \<times> state) option"
where
  "effect_finally eb fuel E e prev_listener prev_sources prev_sources_index pending s4 =
     (case cleanup_context fuel s4 of
        None \<Rightarrow> None
      | Some s5 \<Rightarrow>
          let s6 = upd_node e (\<lambda>n. n\<lparr>flags := flags n - {RUNNING}\<rparr>)
                     (s5\<lparr>eval_listener := prev_listener,
                         eval_untracked_sources := prev_sources,
                         eval_sources_index := prev_sources_index\<rparr>)
          in case (if DISPOSED \<in> flags (nodes s6 e)
                   then dispose_effect (cleanup_effect eb fuel E) fuel e True s6
                   else Some (Returns (), s6)) of
               None \<Rightarrow> None
             | Some (Throws x, s7) \<Rightarrow> Some (Throws x, s7)
             | Some (Returns _, s7) \<Rightarrow>
                 (case eb s7 of
                    None \<Rightarrow> None
                  | Some (Throws x, s8) \<Rightarrow> Some (Throws x, s8)
                  | Some (Returns _, s8) \<Rightarrow> Some (pending, s8)))"

definition effect_refresh_body ::
  "(state \<Rightarrow> (unit outcome \<times> state) option) \<Rightarrow> nat \<Rightarrow> env \<Rightarrow> nat \<Rightarrow> state
     \<Rightarrow> (unit outcome \<times> state) option"
where
  "effect_refresh_body eb fuel E e s =
     (let fl = flags (nodes s e)
      in if RUNNING \<in> fl then Some (Returns (), s)
         else
           let prev_listener = eval_listener s;
               prev_sources = eval_untracked_sources s;
               prev_sources_index = eval_sources_index s;
               s1 = (start_batch s)\<lparr>eval_listener := Some e,
                                     eval_untracked_sources := None,
                                     eval_sources_index := 0\<rparr>;
               s2 = (upd_node e (\<lambda>n. n\<lparr>epoch := write_clock s1,
                                          context_epoch := read_clock s1,
                                          flags := (fl - {DIRTY} - {MAYBE_DIRTY}) \<union> {RUNNING}\<rparr>) s1)
                      \<lparr>read_clock := read_clock s1 + 1\<rparr>
           in case compute E e (stored (nodes s2 e)) s2 of
                None \<Rightarrow> None
              | Some (Returns v, s3) \<Rightarrow>
                  effect_finally eb fuel E e prev_listener prev_sources prev_sources_index
                    (Returns ()) (upd_node e (\<lambda>n. n\<lparr>stored := v\<rparr>) s3)
              | Some (Throws err, s3) \<Rightarrow>
                  effect_finally eb fuel E e prev_listener prev_sources prev_sources_index
                    (Throws err) s3)"

section \<open>The batch queue\<close>

text \<open>
  The inner loop of \<open>end_batch\<close> over one wave, following the \<open>_next_batched_effect\<close>
  links; \<open>rf\<close> refreshes a source, \<open>er\<close> is \<open>Effect._refresh\<close>. The pair
  \<open>has_error\<close>, \<open>error\<close> is an optional value. Each unit of fuel pays for one
  iteration.
\<close>

primrec wave ::
  "nat \<Rightarrow> (nat \<Rightarrow> state \<Rightarrow> (bool \<times> state) option) \<Rightarrow> (nat \<Rightarrow> state \<Rightarrow> (unit outcome \<times> state) option)
     \<Rightarrow> nat option \<Rightarrow> val option \<Rightarrow> state \<Rightarrow> (val option \<times> state) option"
where
  "wave 0 rf er effect error s = (case effect of None \<Rightarrow> Some (error, s) | Some e \<Rightarrow> None)"
| "wave (Suc fuel) rf er effect error s =
     (case effect of
        None \<Rightarrow> Some (error, s)
      | Some e \<Rightarrow>
          let next = next_batched_effect (nodes s e);
              fl = flags (nodes s e) - {NOTIFIED};
              s1 = upd_node e (\<lambda>n. n\<lparr>flags := fl, next_batched_effect := None\<rparr>) s
          in if DISPOSED \<notin> fl then
               (case is_stale rf e fl s1 of
                  None \<Rightarrow> None
                | Some (stale, s2) \<Rightarrow>
                    if stale then
                      (case er e s2 of
                         None \<Rightarrow> None
                       | Some (Returns _, s3) \<Rightarrow> wave fuel rf er next error s3
                       | Some (Throws err, s3) \<Rightarrow>
                           wave fuel rf er next (if error = None then Some err else error) s3)
                    else wave fuel rf er next error s2)
             else wave fuel rf er next error s1)"

text \<open>The outer loop: one wave per iteration, until the queue stays empty.\<close>

primrec drain ::
  "nat \<Rightarrow> (nat option \<Rightarrow> val option \<Rightarrow> state \<Rightarrow> (val option \<times> state) option)
     \<Rightarrow> val option \<Rightarrow> state \<Rightarrow> (val option \<times> state) option"
where
  "drain 0 w error s = (case batched_effect s of None \<Rightarrow> Some (error, s) | Some e \<Rightarrow> None)"
| "drain (Suc fuel) w error s =
     (case batched_effect s of
        None \<Rightarrow> Some (error, s)
      | Some e \<Rightarrow>
          (case w (Some e) error
                  (s\<lparr>batched_effect := None, batch_iteration := batch_iteration s + 1\<rparr>) of
             None \<Rightarrow> None
           | Some (error', s') \<Rightarrow> drain fuel w error' s'))"

text \<open>\<open>end_batch\<close>, given its drain loop.\<close>

definition end_batch_with ::
  "(val option \<Rightarrow> state \<Rightarrow> (val option \<times> state) option) \<Rightarrow> state \<Rightarrow> (unit outcome \<times> state) option"
where
  "end_batch_with dr s =
     (if batch_depth s > 1 then Some (Returns (), s\<lparr>batch_depth := batch_depth s - 1\<rparr>)
      else case dr None s of
             None \<Rightarrow> None
           | Some (error, s1) \<Rightarrow>
               let s2 = s1\<lparr>batch_iteration := 0, batch_depth := batch_depth s1 - 1\<rparr>
               in (case error of None \<Rightarrow> Some (Returns (), s2) | Some x \<Rightarrow> Some (Throws x, s2)))"

text \<open>
  \<open>Effect._refresh\<close> and \<open>end_batch\<close> call each other; the recursion is tied through
  the fuel.
\<close>

primrec effect_refresh :: "nat \<Rightarrow> env \<Rightarrow> nat \<Rightarrow> state \<Rightarrow> (unit outcome \<times> state) option" where
  "effect_refresh 0 E e s = None"
| "effect_refresh (Suc fuel) E e s =
     effect_refresh_body
       (end_batch_with (drain fuel (wave fuel (refresh fuel E) (effect_refresh fuel E))))
       fuel E e s"

definition end_batch :: "nat \<Rightarrow> env \<Rightarrow> state \<Rightarrow> (unit outcome \<times> state) option" where
  "end_batch fuel E s =
     end_batch_with (drain fuel (wave fuel (refresh fuel E) (effect_refresh fuel E))) s"

definition effect_dispose :: "nat \<Rightarrow> env \<Rightarrow> nat \<Rightarrow> state \<Rightarrow> (unit outcome \<times> state) option" where
  "effect_dispose fuel E e s =
     (let s1 = upd_node e (\<lambda>n. n\<lparr>flags := flags n \<union> {DISPOSED}\<rparr>) s
      in if RUNNING \<notin> flags (nodes s1 e)
         then dispose_effect (cleanup_effect (end_batch fuel E) fuel E) fuel e True s1
         else Some (Returns (), s1))"

section \<open>Writing a signal, and the exported helpers\<close>

text \<open>The setter \<open>Signal.value\<close>.\<close>

definition signal_set :: "nat \<Rightarrow> env \<Rightarrow> nat \<Rightarrow> val \<Rightarrow> state \<Rightarrow> (unit outcome \<times> state) option" where
  "signal_set fuel E x next s =
     (if stored (nodes s x) \<noteq> next then
        (let s1 = (upd_node x (\<lambda>n. n\<lparr>epoch := write_clock s + 1, stored := next\<rparr>) s)
                    \<lparr>write_clock := write_clock s + 1\<rparr>
         in if batch_iteration s1 < 100 then
              (case for_each (\<lambda>dep. notify fuel dep DIRTY) (dependants (nodes s1 x))
                      (start_batch s1) of
                 None \<Rightarrow> None
               | Some s2 \<Rightarrow> end_batch fuel E s2)
            else Some (Returns (), s1))
      else Some (Returns (), s))"

text \<open>\<open>untrack\<close>; the callback is client code.\<close>

definition untrack ::
  "(state \<Rightarrow> ('a outcome \<times> state) option) \<Rightarrow> state \<Rightarrow> ('a outcome \<times> state) option"
where
  "untrack callback s =
     (case eval_listener s of
        None \<Rightarrow> callback s
      | Some prev_listener \<Rightarrow>
          (case callback (s\<lparr>eval_listener := None\<rparr>) of
             None \<Rightarrow> None
           | Some (r, s') \<Rightarrow> Some (r, s'\<lparr>eval_listener := Some prev_listener\<rparr>)))"

definition batch ::
  "nat \<Rightarrow> env \<Rightarrow> (state \<Rightarrow> (unit outcome \<times> state) option) \<Rightarrow> state \<Rightarrow> (unit outcome \<times> state) option"
where
  "batch fuel E callback s =
     (if batch_depth s > 0 then callback s
      else case callback (start_batch s) of
             None \<Rightarrow> None
           | Some (r, s1) \<Rightarrow>
               (case end_batch fuel E s1 of
                  None \<Rightarrow> None
                | Some (Throws x, s2) \<Rightarrow> Some (Throws x, s2)
                | Some (Returns _, s2) \<Rightarrow> Some (r, s2)))"

text \<open>\<open>cleanup(fn, throws)\<close>, for a cleanup function known by its identifier.\<close>

definition cleanup :: "nat \<Rightarrow> bool \<Rightarrow> state \<Rightarrow> unit outcome \<times> state" where
  "cleanup f throws s =
     (case eval_listener s of
        Some l \<Rightarrow>
          if kind (nodes s l) = KEffect
          then (Returns (), upd_node l (\<lambda>n. n\<lparr>cleanups := cleanups n @ [f]\<rparr>) s)
          else if throws then (Throws (Str ''Cleanup function called outside of effect''), s)
          else (Returns (), s)
      | None \<Rightarrow>
          if throws then (Throws (Str ''Cleanup function called outside of effect''), s)
          else (Returns (), s))"

section \<open>Construction\<close>

text \<open>
  The field initialisers of the three classes; the fields a class does not have keep the
  values below and are never read for an object of that class.
\<close>

definition new_signal :: "val \<Rightarrow> node" where
  "new_signal v =
     \<lparr>kind = KSignal, epoch = - 1, access_epoch = - 1, dependants = [], stored = v,
      dependencies = [], flags = {}, realm_write_epoch = - 1, context_epoch = - 1,
      cleanups = [], next_batched_effect = None\<rparr>"

definition new_computed :: "val \<Rightarrow> node" where
  "new_computed v =
     \<lparr>kind = KComputed, epoch = - 1, access_epoch = - 1, dependants = [], stored = v,
      dependencies = [], flags = {DIRTY}, realm_write_epoch = - 1, context_epoch = - 1,
      cleanups = [], next_batched_effect = None\<rparr>"

definition new_effect :: "val \<Rightarrow> node" where
  "new_effect v =
     \<lparr>kind = KEffect, epoch = - 1, access_epoch = - 1, dependants = [], stored = v,
      dependencies = [], flags = {TRACKING}, realm_write_epoch = - 1, context_epoch = - 1,
      cleanups = [], next_batched_effect = None\<rparr>"

text \<open>The module state at load time, over a heap of unused addresses.\<close>

definition initial_state :: state where
  "initial_state =
     \<lparr>nodes = (\<lambda>_. new_signal Undefined), eval_listener = None, eval_sources_index = 0,
      eval_untracked_sources = None, batched_effect = None, batch_depth = 0,
      batch_iteration = 0, write_clock = 0, read_clock = 0\<rparr>"

section \<open>Example heaps\<close>

text \<open>A signal at address 0 with the subscribers 5, 9 and 3.\<close>

definition three_subscribers :: state where
  "three_subscribers =
     initial_state\<lparr>nodes := (nodes initial_state)
       (0 := (new_signal (Num 1))\<lparr>dependants := [5, 9, 3]\<rparr>)\<rparr>"

text \<open>
  The staleness walk in the words of the specification. \<open>quiet_walk\<close> passes over a
  list of sources none of which triggers: each has an epoch not above the target's and
  its refresh reports no change; the refreshes are threaded through the state.
  \<open>first_hit\<close> is a source that triggers: its epoch is above the target's, or else
  its refresh reports a change.
\<close>

fun quiet_walk ::
  "(nat \<Rightarrow> state \<Rightarrow> (bool \<times> state) option) \<Rightarrow> nat \<Rightarrow> nat list \<Rightarrow> state \<Rightarrow> state option"
where
  "quiet_walk rf target [] s = Some s"
| "quiet_walk rf target (source # rest) s =
     (if epoch (nodes s source) > epoch (nodes s target) then None
      else case rf source s of
             Some (False, s') \<Rightarrow> quiet_walk rf target rest s'
           | _ \<Rightarrow> None)"

definition first_hit ::
  "(nat \<Rightarrow> state \<Rightarrow> (bool \<times> state) option) \<Rightarrow> nat \<Rightarrow> nat \<Rightarrow> state \<Rightarrow> state option"
where
  "first_hit rf target source s =
     (if epoch (nodes s source) > epoch (nodes s target) then Some s
      else case rf source s of Some (True, s') \<Rightarrow> Some s' | _ \<Rightarrow> None)"

text \<open>A client that supplies no function at all.\<close>

definition no_client :: env where
  "no_client = \<lparr>compute = (\<lambda>_ _ _. None), cleanup_fn = (\<lambda>_ _. None)\<rparr>"

text \<open>An effect at address 2 that has read the signals 0 and 1; signal 1 was written since.\<close>

definition watcher_heap :: state where
  "watcher_heap =
     initial_state\<lparr>nodes := (nodes initial_state)
       (0 := (new_signal (Num 1))\<lparr>epoch := 2\<rparr>,
        1 := (new_signal (Num 2))\<lparr>epoch := 5\<rparr>,
        2 := (new_effect Undefined)\<lparr>epoch := 3, dependencies := [0, 1]\<rparr>)\<rparr>"

text \<open>No flag of any object is cleared between two states.\<close>

definition flags_grow :: "state \<Rightarrow> state \<Rightarrow> bool" where
  "flags_grow s s' = (\<forall>y. flags (nodes s y) \<subseteq> flags (nodes s' y))"

text \<open>Two pieces of client code: a tracked read of a signal, and a throw.\<close>

definition read_signal :: "nat \<Rightarrow> state \<Rightarrow> (val outcome \<times> state) option" where
  "read_signal x s = (let (v, s') = signal_get x s in Some (Returns v, s'))"

definition throw_value :: "val \<Rightarrow> state \<Rightarrow> (val outcome \<times> state) option" where
  "throw_value v s = Some (Throws v, s)"

text \<open>A running effect at address 1 is the listener; signal 0 holds 7.\<close>

definition listening_heap :: state where
  "listening_heap =
     initial_state\<lparr>nodes := (nodes initial_state)
       (0 := new_signal (Num 7),
        1 := (new_effect Undefined)\<lparr>context_epoch := 4, flags := {TRACKING, RUNNING}\<rparr>),
       eval_listener := Some 1, read_clock := 5, batch_depth := 1\<rparr>"

text \<open>The state after the two assignments of the setter: the clock ticks, the signal is stamped.\<close>

definition written :: "nat \<Rightarrow> val \<Rightarrow> state \<Rightarrow> state" where
  "written x next s =
     (upd_node x (\<lambda>n. n\<lparr>epoch := write_clock s + 1, stored := next\<rparr>) s)
       \<lparr>write_clock := write_clock s + 1\<rparr>"

text \<open>Inside a batch: signal 0 holds 1 and has the effect 1 as its subscriber.\<close>

definition subscribed_heap :: state where
  "subscribed_heap =
     initial_state\<lparr>nodes := (nodes initial_state)
       (0 := (new_signal (Num 1))\<lparr>dependants := [1]\<rparr>,
        1 := (new_effect Undefined)\<lparr>dependencies := [0]\<rparr>),
       batch_depth := 1\<rparr>"

text \<open>
  An effect at address 3 that read the signals 0 and 1 on its last run and is running
  again: the effect is the listener, the cursor is at 0 and there is no buffer yet.
\<close>

definition rerun_start :: state where
  "rerun_start =
     initial_state\<lparr>nodes := (nodes initial_state)
       (0 := (new_signal (Num 1))\<lparr>dependants := [3], access_epoch := 0\<rparr>,
        1 := (new_signal (Num 2))\<lparr>dependants := [3], access_epoch := 0\<rparr>,
        2 := new_signal (Num 3),
        3 := (new_effect Undefined)\<lparr>dependencies := [0, 1], flags := {TRACKING, RUNNING},
                context_epoch := 1\<rparr>),
       eval_listener := Some 3, read_clock := 2, batch_depth := 1\<rparr>"

text \<open>This run reads signal 0 again and then signal 2 instead of signal 1.\<close>

definition rerun_heap :: state where
  "rerun_heap = snd (signal_get 2 (snd (signal_get 0 rerun_start)))"

text \<open>
  A client with one effect, at address 3: it reads signal 0, then signal 1 when signal 0
  holds 1 and signal 2 otherwise, and returns what signal 0 held.
\<close>

definition branching :: env where
  "branching =
     \<lparr>compute = (\<lambda>x prev s.
        if x = 3 then
          (let (v, s1) = signal_get 0 s;
               (w, s2) = (if v = Num 1 then signal_get 1 s1 else signal_get 2 s1)
           in Some (Returns v, s2))
        else None),
      cleanup_fn = (\<lambda>_ _. None)\<rparr>"

text \<open>Three fresh signals and the fresh effect, before its first run.\<close>

definition three_signals :: state where
  "three_signals =
     initial_state\<lparr>nodes := (nodes initial_state)
       (0 := new_signal (Num 1), 1 := new_signal (Num 2), 2 := new_signal (Num 3),
        3 := new_effect Undefined)\<rparr>"

text \<open>
  The drain in the words of the specification: the same two loops, collecting every
  error thrown by a refreshed effect, in the order thrown, instead of remembering one.
\<close>

primrec wave_all ::
  "nat \<Rightarrow> (nat \<Rightarrow> state \<Rightarrow> (bool \<times> state) option) \<Rightarrow> (nat \<Rightarrow> state \<Rightarrow> (unit outcome \<times> state) option)
     \<Rightarrow> nat option \<Rightarrow> state \<Rightarrow> (val list \<times> state) option"
where
  "wave_all 0 rf er effect s = (case effect of None \<Rightarrow> Some ([], s) | Some e \<Rightarrow> None)"
| "wave_all (Suc fuel) rf er effect s =
     (case effect of
        None \<Rightarrow> Some ([], s)
      | Some e \<Rightarrow>
          let next = next_batched_effect (nodes s e);
              fl = flags (nodes s e) - {NOTIFIED};
              s1 = upd_node e (\<lambda>n. n\<lparr>flags := fl, next_batched_effect := None\<rparr>) s
          in if DISPOSED \<notin> fl then
               (case is_stale rf e fl s1 of
                  None \<Rightarrow> None
                | Some (stale, s2) \<Rightarrow>
                    if stale then
                      (case er e s2 of
                         None \<Rightarrow> None
                       | Some (r, s3) \<Rightarrow>
                           (case wave_all fuel rf er next s3 of
                              None \<Rightarrow> None
                            | Some (errs, s4) \<Rightarrow>
                                Some ((case r of Returns _ \<Rightarrow> [] | Throws err \<Rightarrow> [err]) @ errs, s4)))
                    else wave_all fuel rf er next s2)
             else wave_all fuel rf er next s1)"

primrec drain_all ::
  "nat \<Rightarrow> (nat option \<Rightarrow> state \<Rightarrow> (val list \<times> state) option) \<Rightarrow> state \<Rightarrow> (val list \<times> state) option"
where
  "drain_all 0 w s = (case batched_effect s of None \<Rightarrow> Some ([], s) | Some e \<Rightarrow> None)"
| "drain_all (Suc fuel) w s =
     (case batched_effect s of
        None \<Rightarrow> Some ([], s)
      | Some e \<Rightarrow>
          (case w (Some e) (s\<lparr>batched_effect := None, batch_iteration := batch_iteration s + 1\<rparr>) of
             None \<Rightarrow> None
           | Some (errs, s') \<Rightarrow>
               (case drain_all fuel w s' of
                  None \<Rightarrow> None
                | Some (errs', s'') \<Rightarrow> Some (errs @ errs', s''))))"

text \<open>What is remembered of the errors thrown so far: the first one, if any.\<close>

definition remembered :: "val option \<Rightarrow> val list \<Rightarrow> val option" where
  "remembered error errs =
     (case error of Some x \<Rightarrow> Some x | None \<Rightarrow> (case errs of [] \<Rightarrow> None | x # _ \<Rightarrow> Some x))"

text \<open>
  A client with three effects that all throw. Effects 1 and 2 read signal 0; effect 2
  also writes what it read to signal 4 before throwing; effect 3 reads signal 4.
\<close>

definition throwers :: env where
  "throwers =
     \<lparr>compute = (\<lambda>x prev s.
        if x = 1 then
          (let (v, s1) = signal_get 0 s in Some (Throws (Str ''one''), s1))
        else if x = 2 then
          (let (v, s1) = signal_get 0 s
           in case signal_set (Suc 0) no_client 4 v s1 of
                None \<Rightarrow> None
              | Some (_, s2) \<Rightarrow> Some (Throws (Str ''two''), s2))
        else if x = 3 then
          (let (v, s1) = signal_get 4 s in Some (Throws (Str ''three''), s1))
        else None),
      cleanup_fn = (\<lambda>_ _. None)\<rparr>"

text \<open>The three effects subscribed to their signals, outside any batch.\<close>

definition throwers_heap :: state where
  "throwers_heap =
     initial_state\<lparr>nodes := (nodes initial_state)
       (0 := (new_signal (Num 1))\<lparr>dependants := [1, 2]\<rparr>,
        4 := (new_signal (Num 0))\<lparr>dependants := [3]\<rparr>,
        1 := (new_effect Undefined)\<lparr>dependencies := [0]\<rparr>,
        2 := (new_effect Undefined)\<lparr>dependencies := [0]\<rparr>,
        3 := (new_effect Undefined)\<lparr>dependencies := [4]\<rparr>)\<rparr>"

text \<open>
  Signal 0 has been written and its two subscribers notified, in the order of its
  dependants; the closing \<open>end_batch\<close> of the setter comes next.
\<close>

definition throwers_queued :: state where
  "throwers_queued =
     effect_notify 2 DIRTY (effect_notify 1 DIRTY (start_batch (written 0 (Num 9) throwers_heap)))"

text \<open>
  The exported \<open>effect(fn, value)\<close>, with the address \<open>e\<close> of the new object; its
  compute function is the one the client has for that address.
\<close>

definition create_effect :: "nat \<Rightarrow> env \<Rightarrow> nat \<Rightarrow> val \<Rightarrow> state \<Rightarrow> (unit outcome \<times> state) option" where
  "create_effect fuel E e v s =
     (let s0 = s\<lparr>nodes := (nodes s)(e := new_effect v)\<rparr>
      in case effect_refresh fuel E e s0 of
           None \<Rightarrow> None
         | Some (Returns _, s1) \<Rightarrow> Some (Returns (), s1)
         | Some (Throws err, s1) \<Rightarrow>
             (case effect_dispose fuel E e s1 of
                None \<Rightarrow> None
              | Some (Throws x, s2) \<Rightarrow> Some (Throws x, s2)
              | Some (Returns _, s2) \<Rightarrow> Some (Throws err, s2)))"

text \<open>
  Everything but the subscriptions is the same in two states: the module variables and,
  in every object, all fields other than the dependants and the \<open>TRACKING\<close> flag.
\<close>

definition subs_only :: "state \<Rightarrow> state \<Rightarrow> bool" where
  "subs_only s s' \<longleftrightarrow>
     eval_listener s' = eval_listener s
     \<and> eval_sources_index s' = eval_sources_index s
     \<and> eval_untracked_sources s' = eval_untracked_sources s
     \<and> batched_effect s' = batched_effect s
     \<and> batch_depth s' = batch_depth s
     \<and> batch_iteration s' = batch_iteration s
     \<and> write_clock s' = write_clock s
     \<and> read_clock s' = read_clock s
     \<and> (\<forall>y. kind (nodes s' y) = kind (nodes s y)
            \<and> epoch (nodes s' y) = epoch (nodes s y)
            \<and> access_epoch (nodes s' y) = access_epoch (nodes s y)
            \<and> stored (nodes s' y) = stored (nodes s y)
            \<and> dependencies (nodes s' y) = dependencies (nodes s y)
            \<and> flags (nodes s' y) - {TRACKING} = flags (nodes s y) - {TRACKING}
            \<and> realm_write_epoch (nodes s' y) = realm_write_epoch (nodes s y)
            \<and> context_epoch (nodes s' y) = context_epoch (nodes s y)
            \<and> cleanups (nodes s' y) = cleanups (nodes s y)
            \<and> next_batched_effect (nodes s' y) = next_batched_effect (nodes s y))"

text \<open>
  A client for disposal. Effect 1 reads signal 0 and throws when it holds 1. Effect 2
  registers the cleanup function 7 and throws; the cleanup function 7 writes 1 to signal 0
  and throws, the cleanup function 8 just returns.
\<close>

definition disposer :: env where
  "disposer =
     \<lparr>compute = (\<lambda>x prev s.
        if x = 1 then
          (let (v, s1) = signal_get 0 s
           in if v = Num 1 then Some (Throws (Str ''drain''), s1) else Some (Returns v, s1))
        else if x = 2 then
          (let (r, s1) = cleanup 7 True s in Some (Throws (Str ''body''), s1))
        else None),
      cleanup_fn = (\<lambda>f s.
        if f = 7 then
          (case signal_set (Suc 0) no_client 0 (Num 1) s of
             None \<Rightarrow> None
           | Some (_, s1) \<Rightarrow> Some (Throws (Str ''cleanup''), s1))
        else if f = 8 then Some (Returns (), s)
        else None)\<rparr>"

text \<open>Outside any batch: signal 0 holds 0 and effect 1 has run once and subscribed to it.\<close>

definition disposer_heap :: state where
  "disposer_heap =
     initial_state\<lparr>nodes := (nodes initial_state)
       (0 := (new_signal (Num 0))\<lparr>dependants := [1], access_epoch := 0\<rparr>,
        1 := (new_effect (Num 0))\<lparr>dependencies := [0], epoch := 0, context_epoch := 0\<rparr>),
       read_clock := 1\<rparr>"

text \<open>
  Inside a batch: effect 2 has read signal 0 and registered the cleanup function 7.
\<close>

definition cleanup_heap :: state where
  "cleanup_heap =
     initial_state\<lparr>nodes := (nodes initial_state)
       (0 := (new_signal (Num 0))\<lparr>dependants := [1, 2], access_epoch := 1\<rparr>,
        1 := (new_effect (Num 0))\<lparr>dependencies := [0], epoch := 0, context_epoch := 0\<rparr>,
        2 := (new_effect Undefined)\<lparr>dependencies := [0], epoch := 0, context_epoch := 1,
                cleanups := [7]\<rparr>),
       read_clock := 2, batch_depth := 1\<rparr>"

text \<open>
  The stages of \<open>Computed._refresh\<close>, named for the statements below. \<open>refresh_go\<close>
  is the state in which the refresh decides to call the compute function, if it does:
  the guards let it pass and the node was never computed or \<open>is_stale\<close> says so.
\<close>

definition refresh_go ::
  "(nat \<Rightarrow> state \<Rightarrow> (bool \<times> state) option) \<Rightarrow> nat \<Rightarrow> state \<Rightarrow> state option"
where
  "refresh_go rf c s =
     (let fl = flags (nodes s c) - {NOTIFIED};
          s0 = upd_node c (\<lambda>n. n\<lparr>flags := fl\<rparr>) s
      in if realm_write_epoch (nodes s0 c) = write_clock s0
            \<or> fl \<inter> {TRACKING, DIRTY, MAYBE_DIRTY} = {TRACKING}
            \<or> RUNNING \<in> fl
         then None
         else
           let s1 = upd_node c (\<lambda>n. n\<lparr>flags := (fl - {DIRTY} - {MAYBE_DIRTY}) \<union> {RUNNING},
                                      realm_write_epoch := write_clock s0\<rparr>) s0
           in case (if epoch (nodes s1 c) > - 1 then is_stale rf c fl s1 else Some (True, s1)) of
                Some (True, s2) \<Rightarrow> Some s2
              | _ \<Rightarrow> None)"

text \<open>The listener context installed for the run of the compute function.\<close>

definition enter_context :: "nat \<Rightarrow> state \<Rightarrow> state" where
  "enter_context c s =
     (upd_node c (\<lambda>n. n\<lparr>context_epoch := read_clock s\<rparr>) s)
       \<lparr>read_clock := read_clock s + 1, eval_listener := Some c,
        eval_untracked_sources := None, eval_sources_index := 0\<rparr>"

text \<open>The assignments after a compute function that threw, and after one that returned a change.\<close>

definition stamp_error :: "nat \<Rightarrow> val \<Rightarrow> state \<Rightarrow> state" where
  "stamp_error c err s =
     (upd_node c (\<lambda>n. n\<lparr>stored := err, flags := flags n \<union> {HAS_ERROR},
                         epoch := write_clock s + 1,
                         realm_write_epoch := write_clock s + 1\<rparr>) s)
       \<lparr>write_clock := write_clock s + 1\<rparr>"

definition stamp_value :: "nat \<Rightarrow> val \<Rightarrow> state \<Rightarrow> state" where
  "stamp_value c v s =
     (upd_node c (\<lambda>n. n\<lparr>stored := v, flags := flags n - {HAS_ERROR},
                         epoch := write_clock s + 1,
                         realm_write_epoch := write_clock s + 1\<rparr>) s)
       \<lparr>write_clock := write_clock s + 1\<rparr>"

text \<open>The end of the refresh: the context saved in \<open>saved\<close> is put back, \<open>RUNNING\<close> is cleared.\<close>

definition leave_context :: "nat \<Rightarrow> state \<Rightarrow> state \<Rightarrow> state" where
  "leave_context c saved s =
     upd_node c (\<lambda>n. n\<lparr>flags := flags n - {RUNNING}\<rparr>)
       (s\<lparr>eval_listener := eval_listener saved,
          eval_untracked_sources := eval_untracked_sources saved,
          eval_sources_index := eval_sources_index saved\<rparr>)"

text \<open>A sequence of reads of one computed signal: \<open>True\<close> is the tracked getter, \<open>False\<close> is \<open>peek\<close>.\<close>

fun reads ::
  "nat \<Rightarrow> env \<Rightarrow> nat \<Rightarrow> bool list \<Rightarrow> state \<Rightarrow> (val outcome list \<times> state) option"
where
  "reads fuel E c [] s = Some ([], s)"
| "reads fuel E c (tracked # rest) s =
     (case (if tracked then computed_get fuel E c s else computed_peek fuel E c s) of
        None \<Rightarrow> None
      | Some (r, s') \<Rightarrow>
          (case reads fuel E c rest s' of
             None \<Rightarrow> None
           | Some (rs, s'') \<Rightarrow> Some (r # rs, s'')))"

text \<open>
  Everything but the dependency edges is the same in two states: the module variables
  and, in every object, all fields other than the dependants, the dependencies and the
  \<open>TRACKING\<close> flag.
\<close>

definition same_but_edges :: "state \<Rightarrow> state \<Rightarrow> bool" where
  "same_but_edges s s' \<longleftrightarrow>
     eval_listener s' = eval_listener s
     \<and> eval_sources_index s' = eval_sources_index s
     \<and> eval_untracked_sources s' = eval_untracked_sources s
     \<and> batched_effect s' = batched_effect s
     \<and> batch_depth s' = batch_depth s
     \<and> batch_iteration s' = batch_iteration s
     \<and> write_clock s' = write_clock s
     \<and> read_clock s' = read_clock s
     \<and> (\<forall>y. kind (nodes s' y) = kind (nodes s y)
            \<and> epoch (nodes s' y) = epoch (nodes s y)
            \<and> access_epoch (nodes s' y) = access_epoch (nodes s y)
            \<and> stored (nodes s' y) = stored (nodes s y)
            \<and> flags (nodes s' y) - {TRACKING} = flags (nodes s y) - {TRACKING}
            \<and> realm_write_epoch (nodes s' y) = realm_write_epoch (nodes s y)
            \<and> context_epoch (nodes s' y) = context_epoch (nodes s y)
            \<and> cleanups (nodes s' y) = cleanups (nodes s y)
            \<and> next_batched_effect (nodes s' y) = next_batched_effect (nodes s y))"

text \<open>What a read hands back for the cached value of a node: the value, thrown if it is an error.\<close>

definition cached :: "nat \<Rightarrow> state \<Rightarrow> val outcome" where
  "cached c s =
     (if HAS_ERROR \<in> flags (nodes s c) then Throws (stored (nodes s c))
      else Returns (stored (nodes s c)))"

text \<open>
  A client with one computed signal, at address 1: it reads signal 0, throws when that
  holds 0 and returns what it read otherwise.
\<close>

definition fallible :: env where
  "fallible =
     \<lparr>compute = (\<lambda>x prev s.
        if x = 1 then
          (let (v, s1) = signal_get 0 s
           in if v = Num 0 then Some (Throws (Str ''zero''), s1) else Some (Returns v, s1))
        else None),
      cleanup_fn = (\<lambda>_ _. None)\<rparr>"

text \<open>Signal 0 holds 0 and the computed signal is fresh.\<close>

definition fallible_heap :: state where
  "fallible_heap =
     initial_state\<lparr>nodes := (nodes initial_state)
       (0 := new_signal (Num 0), 1 := new_computed Undefined)\<rparr>"

text \<open>The computed signal holds the error of an earlier run; signal 0 was written since and the node marked.\<close>

definition fallible_failed :: state where
  "fallible_failed =
     initial_state\<lparr>nodes := (nodes initial_state)
       (0 := (new_signal (Num 4))\<lparr>epoch := 2, access_epoch := 0\<rparr>,
        1 := (new_computed (Str ''zero''))\<lparr>epoch := 1, realm_write_epoch := 1,
                context_epoch := 0, dependencies := [0], flags := {HAS_ERROR, DIRTY}\<rparr>),
       write_clock := 2, read_clock := 1\<rparr>"

text \<open>
  The steps \<open>Computed._refresh\<close> takes on the node \<open>d\<close> it refreshes and on the module
  variables, apart from its calls: clearing \<open>NOTIFIED\<close> on entry, marking the node
  \<open>RUNNING\<close>, clearing \<open>RUNNING\<close>, entering and leaving the listener context, and
  stamping a new value or error.
\<close>

inductive own_step :: "nat \<Rightarrow> state \<Rightarrow> state \<Rightarrow> bool" where
  unnotify: "kind (nodes t d) = KComputed \<Longrightarrow>
      own_step d t (upd_node d (\<lambda>n. n\<lparr>flags := flags n - {NOTIFIED}\<rparr>) t)"
| mark: "own_step d t (upd_node d (\<lambda>n. n\<lparr>flags := (flags n - {DIRTY} - {MAYBE_DIRTY}) \<union> {RUNNING},
                                         realm_write_epoch := write_clock t\<rparr>) t)"
| unmark: "own_step d t (upd_node d (\<lambda>n. n\<lparr>flags := flags n - {RUNNING}\<rparr>) t)"
| enter: "own_step d t (enter_context d t)"
| leave: "own_step d t (leave_context d saved t)"
| error: "own_step d t (stamp_error d err t)"
| stamped: "own_step d t (stamp_value d v t)"

text \<open>
  A computed signal is settled when its refresh will not call the compute function: one
  of the three guards of \<open>Computed._refresh\<close> holds, or the node carries neither
  \<open>DIRTY\<close> nor \<open>MAYBE_DIRTY\<close> and has been computed before.
\<close>

definition settled :: "nat \<Rightarrow> state \<Rightarrow> bool" where
  "settled c s \<longleftrightarrow>
     realm_write_epoch (nodes s c) = write_clock s
     \<or> flags (nodes s c) \<inter> {TRACKING, DIRTY, MAYBE_DIRTY} = {TRACKING}
     \<or> RUNNING \<in> flags (nodes s c)
     \<or> (DIRTY \<notin> flags (nodes s c) \<and> MAYBE_DIRTY \<notin> flags (nodes s c)
         \<and> epoch (nodes s c) > - 1)"

text \<open>
  What a step that writes no signal keeps of the node \<open>c\<close>: it sets neither \<open>DIRTY\<close>
  nor \<open>MAYBE_DIRTY\<close> on it, and where the write clock is not negative and the epoch of
  \<open>c\<close> not below \<open>-1\<close> they stay so, and a computed \<open>c\<close> stays computed.
\<close>

definition calm :: "nat \<Rightarrow> state \<Rightarrow> state \<Rightarrow> bool" where
  "calm c t t' \<longleftrightarrow>
     (DIRTY \<in> flags (nodes t' c) \<longrightarrow> DIRTY \<in> flags (nodes t c))
     \<and> (MAYBE_DIRTY \<in> flags (nodes t' c) \<longrightarrow> MAYBE_DIRTY \<in> flags (nodes t c))
     \<and> (0 \<le> write_clock t \<and> - 1 \<le> epoch (nodes t c) \<longrightarrow>
          0 \<le> write_clock t' \<and> - 1 \<le> epoch (nodes t' c)
          \<and> (- 1 < epoch (nodes t c) \<longrightarrow> - 1 < epoch (nodes t' c)))"

text \<open>
  Three clients, each adding a function to the one before. The computed signal 1
  returns 7. The computed signal 2 reads signal 0 and, unless that holds 0, also reads the
  computed signal 1; it returns 0 in either case. The effect 3 reads the computed signal 2.
\<close>

definition constant_client :: env where
  "constant_client =
     \<lparr>compute = (\<lambda>x prev s. if x = 1 then Some (Returns (Num 7), s) else None),
      cleanup_fn = (\<lambda>_ _. None)\<rparr>"

definition nested_client :: env where
  "nested_client =
     \<lparr>compute = (\<lambda>x prev s.
        if x = 2 then
          (let (v, s1) = signal_get 0 s
           in if v = Num 0 then Some (Returns (Num 0), s1)
              else (case computed_get (Suc (Suc 0)) constant_client 1 s1 of
                      None \<Rightarrow> None
                    | Some (_, s2) \<Rightarrow> Some (Returns (Num 0), s2)))
        else compute constant_client x prev s),
      cleanup_fn = (\<lambda>_ _. None)\<rparr>"

definition watching_client :: env where
  "watching_client =
     \<lparr>compute = (\<lambda>x prev s.
        if x = 3 then computed_get (Suc (Suc (Suc 0))) nested_client 2 s
        else compute nested_client x prev s),
      cleanup_fn = (\<lambda>_ _. None)\<rparr>"

text \<open>Signal 0 holds 0; the two computed signals are fresh.\<close>

definition nested_heap :: state where
  "nested_heap =
     initial_state\<lparr>nodes := (nodes initial_state)
       (0 := new_signal (Num 0), 1 := new_computed Undefined, 2 := new_computed Undefined)\<rparr>"

text \<open>
  The queue of notified effects as a list: \<open>linked s h xs\<close> says that following the
  \<open>_next_batched_effect\<close> links from the head \<open>h\<close> runs through exactly \<open>xs\<close>.
\<close>

fun linked :: "state \<Rightarrow> nat option \<Rightarrow> nat list \<Rightarrow> bool" where
  "linked s h [] \<longleftrightarrow> h = None"
| "linked s h (e # es) \<longleftrightarrow> h = Some e \<and> linked s (next_batched_effect (nodes s e)) es"

text \<open>
  An effect waiting in the queue: it is marked \<open>NOTIFIED\<close> and its link is \<open>n\<close>.
\<close>

definition parked :: "nat \<Rightarrow> nat option \<Rightarrow> state \<Rightarrow> bool" where
  "parked y n t \<longleftrightarrow>
     kind (nodes t y) = KEffect \<and> NOTIFIED \<in> flags (nodes t y)
     \<and> next_batched_effect (nodes t y) = n"

text \<open>
  What a step inside a batch keeps of the queue: the batch depth does not drop, and every
  waiting effect keeps waiting with the same link.
\<close>

definition queue_kept :: "state \<Rightarrow> state \<Rightarrow> bool" where
  "queue_kept t t' \<longleftrightarrow>
     (1 \<le> batch_depth t \<longrightarrow>
        batch_depth t \<le> batch_depth t' \<and> (\<forall>y n. parked y n t \<longrightarrow> parked y n t'))"

text \<open>
  The body of the inner loop of \<open>end_batch\<close> for one effect, and the loop over a list
  of effects in the order of the list.
\<close>

definition visit ::
  "(nat \<Rightarrow> state \<Rightarrow> (bool \<times> state) option) \<Rightarrow> (nat \<Rightarrow> state \<Rightarrow> (unit outcome \<times> state) option)
     \<Rightarrow> nat \<Rightarrow> val option \<Rightarrow> state \<Rightarrow> (val option \<times> state) option"
where
  "visit rf er e error s =
     (let fl = flags (nodes s e) - {NOTIFIED};
          s1 = upd_node e (\<lambda>n. n\<lparr>flags := fl, next_batched_effect := None\<rparr>) s
      in if DISPOSED \<notin> fl then
           (case is_stale rf e fl s1 of
              None \<Rightarrow> None
            | Some (stale, s2) \<Rightarrow>
                if stale then
                  (case er e s2 of
                     None \<Rightarrow> None
                   | Some (Returns _, s3) \<Rightarrow> Some (error, s3)
                   | Some (Throws err, s3) \<Rightarrow>
                       Some (if error = None then Some err else error, s3))
                else Some (error, s2))
         else Some (error, s1))"

fun visit_all ::
  "(nat \<Rightarrow> state \<Rightarrow> (bool \<times> state) option) \<Rightarrow> (nat \<Rightarrow> state \<Rightarrow> (unit outcome \<times> state) option)
     \<Rightarrow> nat list \<Rightarrow> val option \<Rightarrow> state \<Rightarrow> (val option \<times> state) option"
where
  "visit_all rf er [] error s = Some (error, s)"
| "visit_all rf er (e # es) error s =
     (case visit rf er e error s of
        None \<Rightarrow> None
      | Some (error', s') \<Rightarrow> visit_all rf er es error' s')"

text \<open>A client whose every function reads signal 0 and returns what it read.\<close>

definition readers :: env where
  "readers =
     \<lparr>compute = (\<lambda>x prev s. let (v, s1) = signal_get 0 s in Some (Returns v, s1)),
      cleanup_fn = (\<lambda>_ _. None)\<rparr>"

text \<open>Inside the setter of signal 0, after its write: three effects are subscribed to it.\<close>

definition subscribers3 :: state where
  "subscribers3 =
     initial_state\<lparr>nodes := (nodes initial_state)
       (0 := (new_signal (Num 5))\<lparr>epoch := 1, dependants := [1, 2, 3]\<rparr>,
        1 := (new_effect (Num 4))\<lparr>dependencies := [0], epoch := 0\<rparr>,
        2 := (new_effect (Num 4))\<lparr>dependencies := [0], epoch := 0\<rparr>,
        3 := (new_effect (Num 4))\<lparr>dependencies := [0], epoch := 0\<rparr>),
       write_clock := 1, batch_depth := 1\<rparr>"

text \<open>A client is calm for a node when each of its compute functions is.\<close>

definition calm_client :: "nat \<Rightarrow> env \<Rightarrow> bool" where
  "calm_client c E \<longleftrightarrow>
     (\<forall>d p t r t'. compute E d p t = Some (r, t') \<longrightarrow> calm c t t')"

text \<open>A client keeps the queue when each of its compute and cleanup functions does.\<close>

definition queue_keeping :: "env \<Rightarrow> bool" where
  "queue_keeping E \<longleftrightarrow>
     (\<forall>d p t r t'. compute E d p t = Some (r, t') \<longrightarrow> queue_kept t t')
     \<and> (\<forall>f t r t'. cleanup_fn E f t = Some (r, t') \<longrightarrow> queue_kept t t')"

section \<open>Properties\<close>

subsection \<open>Array primitives\<close>

lemma indexOf_absent: "x \<notin> set xs \<Longrightarrow> indexOf xs x = - 1"
  by (induction xs) (auto simp: Let_def)

lemma indexOf_present:
  "x \<in> set xs \<Longrightarrow> indexOf xs x = int (length (takeWhile (\<lambda>y. y \<noteq> x) xs))"
  by (induction xs) (auto simp: Let_def indexOf_absent)

lemma splice_minus_one: "array_splice xs (- 1) 1 = butlast xs"
proof (cases xs rule: rev_cases)
  case Nil
  then show ?thesis by (simp add: array_splice_def)
next
  case (snoc ys y)
  then show ?thesis by (simp add: array_splice_def Let_def)
qed

lemma remove1_takeWhile:
  "x \<in> set xs \<Longrightarrow>
   remove1 x xs = takeWhile (\<lambda>y. y \<noteq> x) xs @ tl (dropWhile (\<lambda>y. y \<noteq> x) xs)"
  by (induction xs) auto

lemma splice_found:
  assumes "x \<in> set xs"
  shows "array_splice xs (indexOf xs x) 1 = remove1 x xs"
proof -
  let ?k = "length (takeWhile (\<lambda>y. y \<noteq> x) xs)"
  have k: "?k < length xs"
    using assms by (induction xs) auto
  have t: "take ?k xs = takeWhile (\<lambda>y. y \<noteq> x) xs"
    by (metis append_eq_conv_conj takeWhile_dropWhile_id)
  have d: "drop (Suc ?k) xs = tl (dropWhile (\<lambda>y. y \<noteq> x) xs)"
    by (metis append_eq_conv_conj drop_Suc drop_tl takeWhile_dropWhile_id tl_drop)
  show ?thesis
    using k t d assms
    by (simp add: array_splice_def Let_def indexOf_present remove1_takeWhile nat_add_distrib)
qed

text \<open>
  C9. \<open>Signal._unsubscribe(t)\<close> removes the first occurrence of \<open>t\<close> from the
  dependants and keeps the other entries in order when \<open>t\<close> is subscribed; when it is
  not, \<open>indexOf\<close> gives \<open>-1\<close> and \<open>splice(-1, 1)\<close> removes the last entry. Nothing
  but the dependants of the signal changes.
\<close>

theorem signal_unsubscribe_splice:
  "signal_unsubscribe x t s =
     upd_node x (\<lambda>n. n\<lparr>dependants :=
       (if t \<in> set (dependants (nodes s x))
        then remove1 t (dependants (nodes s x))
        else butlast (dependants (nodes s x)))\<rparr>) s
   \<and> (t \<notin> set (dependants (nodes s x)) \<longrightarrow>
        indexOf (dependants (nodes s x)) t = - 1)"
  by (simp add: signal_unsubscribe_def upd_node_def Let_def splice_found indexOf_absent
      splice_minus_one)

theorem signal_unsubscribe_splice_witness:
  "dependants (nodes (signal_unsubscribe 0 9 three_subscribers) 0) = [5, 3]
   \<and> 7 \<notin> set (dependants (nodes three_subscribers 0))
   \<and> indexOf (dependants (nodes three_subscribers 0)) 7 = - 1
   \<and> dependants (nodes (signal_unsubscribe 0 7 three_subscribers) 0) = [5, 9]"
  using signal_unsubscribe_splice [of 0 9 three_subscribers]
    signal_unsubscribe_splice [of 0 7 three_subscribers]
  by (simp add: three_subscribers_def initial_state_def new_signal_def upd_node_def)

subsection \<open>Staleness\<close>

lemma stale_walk_False:
  "stale_walk rf target deps s = Some (False, s') \<longleftrightarrow> quiet_walk rf target deps s = Some s'"
  by (induction deps arbitrary: s) (auto split: option.splits bool.splits)

lemma ex_split_Cons:
  "(\<exists>pre x post. d # ds = pre @ x # post \<and> P pre x) \<longleftrightarrow>
     P [] d \<or> (\<exists>pre x post. ds = pre @ x # post \<and> P (d # pre) x)"
  (is "?L \<longleftrightarrow> ?R")
proof
  assume ?L
  then obtain pre x post where eq: "d # ds = pre @ x # post" and p: "P pre x" by blast
  show ?R
  proof (cases pre)
    case Nil
    with eq p show ?thesis by simp
  next
    case (Cons a pre')
    with eq p have "ds = pre' @ x # post" "P (d # pre') x" by simp_all
    then show ?thesis by blast
  qed
next
  assume ?R
  then show ?L
  proof
    assume "P [] d"
    then have "d # ds = [] @ d # ds \<and> P [] d" by simp
    then show ?L by blast
  next
    assume "\<exists>pre x post. ds = pre @ x # post \<and> P (d # pre) x"
    then obtain pre x post where "ds = pre @ x # post" "P (d # pre) x" by blast
    then have "d # ds = (d # pre) @ x # post \<and> P (d # pre) x" by simp
    then show ?L by blast
  qed
qed

lemma stale_walk_True:
  "stale_walk rf target deps s = Some (True, s') \<longleftrightarrow>
     (\<exists>pre source post. deps = pre @ source # post
        \<and> (\<exists>sd. quiet_walk rf target pre s = Some sd \<and> first_hit rf target source sd = Some s'))"
proof (induction deps arbitrary: s)
  case Nil
  then show ?case by simp
next
  case (Cons d ds)
  show ?case
    unfolding ex_split_Cons
    by (auto simp: first_hit_def Cons split: option.splits bool.splits)
qed

text \<open>
  C2. \<open>is_stale(target, flags)\<close> is true when \<open>DIRTY\<close> is set and false when neither
  \<open>DIRTY\<close> nor \<open>MAYBE_DIRTY\<close> is set, in both cases without touching the state. With
  only \<open>MAYBE_DIRTY\<close> set it is true exactly when the dependencies split into a prefix
  that is passed over quietly and a first source that triggers (its epoch is above the
  target's, or its refresh returns true), and false exactly when the whole list is passed
  over quietly.
\<close>

theorem is_stale_walk:
  "(DIRTY \<in> fl \<longrightarrow> is_stale rf target fl s = Some (True, s))
   \<and> (DIRTY \<notin> fl \<and> MAYBE_DIRTY \<notin> fl \<longrightarrow> is_stale rf target fl s = Some (False, s))
   \<and> (DIRTY \<notin> fl \<and> MAYBE_DIRTY \<in> fl \<longrightarrow>
        (\<forall>s'. is_stale rf target fl s = Some (True, s') \<longleftrightarrow>
           (\<exists>pre source post. dependencies (nodes s target) = pre @ source # post
              \<and> (\<exists>sd. quiet_walk rf target pre s = Some sd
                    \<and> first_hit rf target source sd = Some s')))
        \<and> (\<forall>s'. is_stale rf target fl s = Some (False, s') \<longleftrightarrow>
              quiet_walk rf target (dependencies (nodes s target)) s = Some s'))"
  by (simp add: is_stale_def stale_walk_True stale_walk_False)

lemma watcher_heap_simps:
  "kind (nodes watcher_heap 0) = KSignal"
  "epoch (nodes watcher_heap 0) = 2"
  "epoch (nodes watcher_heap (Suc 0)) = 5"
  "epoch (nodes watcher_heap 2) = 3"
  "dependencies (nodes watcher_heap 2) = [0, Suc 0]"
  by (simp_all add: watcher_heap_def initial_state_def new_signal_def new_effect_def)

theorem is_stale_walk_witness:
  "is_stale (refresh (Suc 0) no_client) 2 {DIRTY} watcher_heap = Some (True, watcher_heap)
   \<and> is_stale (refresh (Suc 0) no_client) 2 {TRACKING} watcher_heap = Some (False, watcher_heap)
   \<and> dependencies (nodes watcher_heap 2) = [0] @ Suc 0 # []
   \<and> quiet_walk (refresh (Suc 0) no_client) 2 [0] watcher_heap = Some watcher_heap
   \<and> first_hit (refresh (Suc 0) no_client) 2 (Suc 0) watcher_heap = Some watcher_heap
   \<and> is_stale (refresh (Suc 0) no_client) 2 {MAYBE_DIRTY} watcher_heap = Some (True, watcher_heap)"
proof -
  let ?rf = "refresh (Suc 0) no_client"
  have d: "dependencies (nodes watcher_heap 2) = [0] @ Suc 0 # []"
    by (simp add: watcher_heap_simps)
  have q: "quiet_walk ?rf 2 [0] watcher_heap = Some watcher_heap"
    by (simp add: watcher_heap_simps)
  have h: "first_hit ?rf 2 (Suc 0) watcher_heap = Some watcher_heap"
    by (simp add: first_hit_def watcher_heap_simps)
  have a: "is_stale ?rf 2 {DIRTY} watcher_heap = Some (True, watcher_heap)"
    using is_stale_walk [of "{DIRTY}" ?rf 2 watcher_heap] by simp
  have b: "is_stale ?rf 2 {TRACKING} watcher_heap = Some (False, watcher_heap)"
    using is_stale_walk [of "{TRACKING}" ?rf 2 watcher_heap] by simp
  have c: "is_stale ?rf 2 {MAYBE_DIRTY} watcher_heap = Some (True, watcher_heap)"
    using is_stale_walk [of "{MAYBE_DIRTY}" ?rf 2 watcher_heap] d q h by blast
  show ?thesis using a b c d q h by simp
qed

lemma listener_same: "eval_listener t = v \<Longrightarrow> t\<lparr>eval_listener := v\<rparr> = t"
  by (cases t) simp

text \<open>
  C10. \<open>untrack(cb)\<close> runs the callback with the listener cleared and hands back its
  outcome, returned or thrown; the final state is the callback's final state with the
  listener put back, so the buffer of new sources and the cursor are as the callback left
  them. With no listener installed \<open>untrack\<close> is the callback itself, and the listener
  is the prior one when the callback leaves it as it found it, as every entry point of the
  module does. A callback without a result gives none.
\<close>

theorem untrack_restores:
  "(callback (s\<lparr>eval_listener := None\<rparr>) = None \<longrightarrow> untrack callback s = None)
   \<and> (\<forall>r s'. callback (s\<lparr>eval_listener := None\<rparr>) = Some (r, s')
         \<and> (eval_listener s \<noteq> None \<or> eval_listener s' = None)
       \<longrightarrow> untrack callback s = Some (r, s'\<lparr>eval_listener := eval_listener s\<rparr>))"
proof (cases "eval_listener s")
  case None
  then show ?thesis by (simp add: untrack_def listener_same)
next
  case (Some l)
  then show ?thesis by (auto simp: untrack_def)
qed

subsection \<open>Notification only sets flags\<close>

lemma for_each_rel:
  assumes "for_each body xs s = Some s'"
    and "\<And>x t t'. x \<in> set xs \<Longrightarrow> body x t = Some t' \<Longrightarrow> R t t'"
    and "\<And>t. R t t"
    and "\<And>a b c. R a b \<Longrightarrow> R b c \<Longrightarrow> R a c"
  shows "R s s'"
  using assms(1,2)
proof (induction xs arbitrary: s)
  case Nil
  then show ?case using assms(3) by simp
next
  case (Cons x xs)
  from Cons.prems(1) obtain t where t: "body x s = Some t" "for_each body xs t = Some s'"
    by (auto split: option.splits)
  have "R s t" by (rule Cons.prems(2) [of x]) (simp_all add: t(1))
  moreover have "R t s'" by (rule Cons.IH [OF t(2)]) (rule Cons.prems(2), simp_all)
  ultimately show ?case using assms(4) by blast
qed

lemma flags_grow_refl: "flags_grow s s"
  by (simp add: flags_grow_def)

lemma flags_grow_trans: "flags_grow a b \<Longrightarrow> flags_grow b c \<Longrightarrow> flags_grow a c"
  unfolding flags_grow_def by blast

lemma for_each_flags_grow:
  assumes "for_each body xs s = Some s'"
    and "\<And>x t t'. x \<in> set xs \<Longrightarrow> body x t = Some t' \<Longrightarrow> flags_grow t t'"
  shows "flags_grow s s'"
  by (rule for_each_rel [OF assms(1), where R = flags_grow])
    (auto intro: assms(2) flags_grow_refl flags_grow_trans)

lemma notify_flags_grow: "notify fuel x fl s = Some s' \<Longrightarrow> flags_grow s s'"
proof (induction fuel arbitrary: x fl s s')
  case 0
  then show ?case by simp
next
  case (Suc fuel)
  show ?case
  proof (cases "kind (nodes s x)")
    case KSignal
    with Suc.prems show ?thesis by simp
  next
    case KEffect
    with Suc.prems show ?thesis
      by (auto simp: effect_notify_def upd_node_def flags_grow_def split: if_splits)
  next
    case KComputed
    show ?thesis
    proof (cases "flags (nodes s x) \<inter> {NOTIFIED, RUNNING} = {}")
      case False
      with KComputed Suc.prems show ?thesis by (auto simp: flags_grow_def split: if_splits)
    next
      case True
      let ?s1 = "upd_node x (\<lambda>n. n\<lparr>flags := flags n \<union> {fl, NOTIFIED}\<rparr>) s"
      have loop: "for_each (\<lambda>dep. notify fuel dep MAYBE_DIRTY) (dependants (nodes s x)) ?s1 = Some s'"
        using Suc.prems KComputed True by (simp add: Let_def)
      have "flags_grow ?s1 s'"
        by (rule for_each_flags_grow [OF loop]) (rule Suc.IH)
      moreover have "flags_grow s ?s1" by (auto simp: flags_grow_def upd_node_def)
      ultimately show ?thesis by (auto simp: flags_grow_def)
    qed
  qed
qed

lemma notify_marks:
  "notify fuel x fl s = Some s' \<Longrightarrow> flags (nodes s' x) \<inter> {NOTIFIED, RUNNING} \<noteq> {}"
proof (cases fuel)
  case 0
  assume "notify fuel x fl s = Some s'"
  with 0 show ?thesis by simp
next
  case (Suc n)
  assume a: "notify fuel x fl s = Some s'"
  show ?thesis
  proof (cases "flags (nodes s x) \<inter> {NOTIFIED, RUNNING} = {}")
    case False
    with notify_flags_grow [OF a] show ?thesis by (auto simp: flags_grow_def)
  next
    case True
    show ?thesis
    proof (cases "kind (nodes s x)")
      case KSignal
      with a Suc show ?thesis by simp
    next
      case KEffect
      with a Suc True show ?thesis by (auto simp: effect_notify_def upd_node_def)
    next
      case KComputed
      let ?s1 = "upd_node x (\<lambda>n. n\<lparr>flags := flags n \<union> {fl, NOTIFIED}\<rparr>) s"
      have loop: "for_each (\<lambda>dep. notify n dep MAYBE_DIRTY) (dependants (nodes s x)) ?s1 = Some s'"
        using a Suc KComputed True by (simp add: Let_def)
      have "flags_grow ?s1 s'"
        by (rule for_each_flags_grow [OF loop]) (rule notify_flags_grow)
      then have "flags (nodes ?s1 x) \<subseteq> flags (nodes s' x)"
        by (simp add: flags_grow_def)
      then show ?thesis by (auto simp: upd_node_def)
    qed
  qed
qed

lemma notify_all_marks:
  "for_each (\<lambda>dep. notify fuel dep fl) ds s = Some s' \<Longrightarrow>
   \<forall>d \<in> set ds. flags (nodes s' d) \<inter> {NOTIFIED, RUNNING} \<noteq> {}"
proof (induction ds arbitrary: s)
  case Nil
  then show ?case by simp
next
  case (Cons d ds)
  from Cons.prems obtain t where t: "notify fuel d fl s = Some t"
      "for_each (\<lambda>dep. notify fuel dep fl) ds t = Some s'"
    by (auto split: option.splits)
  have "flags_grow t s'"
    by (rule for_each_flags_grow [OF t(2)]) (rule notify_flags_grow)
  with notify_marks [OF t(1)] have "flags (nodes s' d) \<inter> {NOTIFIED, RUNNING} \<noteq> {}"
    by (auto simp: flags_grow_def)
  with Cons.IH [OF t(2)] show ?case by simp
qed

theorem untrack_restores_witness:
  "eval_listener listening_heap \<noteq> None
   \<and> untrack (read_signal 0) listening_heap = Some (Returns (Num 7), listening_heap)
   \<and> untrack (throw_value (Str ''boom'')) listening_heap
       = Some (Throws (Str ''boom''), listening_heap)"
proof -
  let ?quiet = "listening_heap\<lparr>eval_listener := None\<rparr>"
  have l: "eval_listener listening_heap = Some 1"
    by (simp add: listening_heap_def)
  have restored: "?quiet\<lparr>eval_listener := eval_listener listening_heap\<rparr> = listening_heap"
    by simp
  have r: "read_signal 0 ?quiet = Some (Returns (Num 7), ?quiet)"
    by (simp add: read_signal_def signal_get_def listening_heap_def initial_state_def
        new_signal_def)
  have t: "throw_value (Str ''boom'') ?quiet = Some (Throws (Str ''boom''), ?quiet)"
    by (simp add: throw_value_def)
  have "untrack (read_signal 0) listening_heap = Some (Returns (Num 7), listening_heap)"
    using untrack_restores [of "read_signal 0" listening_heap] r l restored by auto
  moreover have "untrack (throw_value (Str ''boom'')) listening_heap
       = Some (Throws (Str ''boom''), listening_heap)"
    using untrack_restores [of "throw_value (Str ''boom'')" listening_heap] t l restored by auto
  ultimately show ?thesis using l by simp
qed

text \<open>
  C4. Setting a signal to the value it holds changes nothing. Setting it to another value
  ticks \<open>write_clock\<close>, stamps the signal with the new clock and stores the value; with
  \<open>batch_iteration\<close> at 100 or more that is all, otherwise \<open>_notify(DIRTY)\<close> is called
  on every dependant in order between \<open>start_batch\<close> and \<open>end_batch\<close>, after which
  every dependant is marked \<open>NOTIFIED\<close> or was skipped as \<open>RUNNING\<close>.
\<close>

theorem signal_set_cases:
  "(stored (nodes s x) = next \<longrightarrow> signal_set fuel E x next s = Some (Returns (), s))
   \<and> (stored (nodes s x) \<noteq> next \<and> batch_iteration s \<ge> 100 \<longrightarrow>
        signal_set fuel E x next s = Some (Returns (), written x next s))
   \<and> (stored (nodes s x) \<noteq> next \<and> batch_iteration s < 100 \<longrightarrow>
        signal_set fuel E x next s =
          (case for_each (\<lambda>dep. notify fuel dep DIRTY) (dependants (nodes s x))
                  (start_batch (written x next s)) of
             None \<Rightarrow> None
           | Some s2 \<Rightarrow> end_batch fuel E s2)
        \<and> (\<forall>s2. for_each (\<lambda>dep. notify fuel dep DIRTY) (dependants (nodes s x))
                    (start_batch (written x next s)) = Some s2 \<longrightarrow>
               (\<forall>d \<in> set (dependants (nodes s x)).
                  flags (nodes s2 d) \<inter> {NOTIFIED, RUNNING} \<noteq> {})))"
proof -
  have deps: "dependants (nodes (written x next s) x) = dependants (nodes s x)"
    by (simp add: written_def upd_node_def)
  have it: "batch_iteration (written x next s) = batch_iteration s"
    by (simp add: written_def upd_node_def)
  have w: "(upd_node x (\<lambda>n. n\<lparr>epoch := write_clock s + 1, stored := next\<rparr>) s)
       \<lparr>write_clock := write_clock s + 1\<rparr> = written x next s"
    by (simp add: written_def)
  show ?thesis
    unfolding signal_set_def Let_def w deps it
    using notify_all_marks by auto
qed

lemma subscribed_heap_simps:
  "stored (nodes subscribed_heap 0) = Num 1"
  "dependants (nodes subscribed_heap 0) = [Suc 0]"
  "batch_iteration subscribed_heap = 0"
  by (simp_all add: subscribed_heap_def initial_state_def new_signal_def)

theorem signal_set_cases_witness:
  "signal_set (Suc 0) no_client 0 (Num 1) subscribed_heap = Some (Returns (), subscribed_heap)
   \<and> signal_set (Suc 0) no_client 0 (Num 2) (subscribed_heap\<lparr>batch_iteration := 100\<rparr>)
       = Some (Returns (), written 0 (Num 2) (subscribed_heap\<lparr>batch_iteration := 100\<rparr>))
   \<and> (case signal_set (Suc 0) no_client 0 (Num 2) subscribed_heap of
         Some (Returns _, s') \<Rightarrow>
           stored (nodes s' 0) = Num 2 \<and> epoch (nodes s' 0) = 1 \<and> write_clock s' = 1
           \<and> flags (nodes s' 1) = {TRACKING, DIRTY, NOTIFIED}
           \<and> batched_effect s' = Some 1 \<and> batch_depth s' = 1
       | _ \<Rightarrow> False)"
proof -
  have a: "signal_set (Suc 0) no_client 0 (Num 1) subscribed_heap = Some (Returns (), subscribed_heap)"
    using signal_set_cases [of subscribed_heap 0 "Num 1" "Suc 0" no_client]
    by (simp add: subscribed_heap_simps)
  have b: "signal_set (Suc 0) no_client 0 (Num 2) (subscribed_heap\<lparr>batch_iteration := 100\<rparr>)
       = Some (Returns (), written 0 (Num 2) (subscribed_heap\<lparr>batch_iteration := 100\<rparr>))"
    using signal_set_cases [of "subscribed_heap\<lparr>batch_iteration := 100\<rparr>" 0 "Num 2" "Suc 0" no_client]
    by (simp add: subscribed_heap_simps)
  have "signal_set (Suc 0) no_client 0 (Num 2) subscribed_heap =
          (case for_each (\<lambda>dep. notify (Suc 0) dep DIRTY) (dependants (nodes subscribed_heap 0))
                  (start_batch (written 0 (Num 2) subscribed_heap)) of
             None \<Rightarrow> None
           | Some s2 \<Rightarrow> end_batch (Suc 0) no_client s2)"
    using signal_set_cases [of subscribed_heap 0 "Num 2" "Suc 0" no_client]
    by (simp add: subscribed_heap_simps)
  then have c: "case signal_set (Suc 0) no_client 0 (Num 2) subscribed_heap of
         Some (Returns _, s') \<Rightarrow>
           stored (nodes s' 0) = Num 2 \<and> epoch (nodes s' 0) = 1 \<and> write_clock s' = 1
           \<and> flags (nodes s' 1) = {TRACKING, DIRTY, NOTIFIED}
           \<and> batched_effect s' = Some 1 \<and> batch_depth s' = 1
       | _ \<Rightarrow> False"
    by (simp add: subscribed_heap_def initial_state_def new_signal_def new_effect_def
        written_def upd_node_def start_batch_def effect_notify_def end_batch_def
        end_batch_with_def insert_commute)
  show ?thesis using a b c by blast
qed

lemma cleanup_context_unsubscribes_prefix:
  "eval_listener rerun_heap = Some 3
   \<and> eval_sources_index rerun_heap = 1
   \<and> eval_untracked_sources rerun_heap = Some [2]
   \<and> TRACKING \<in> flags (nodes rerun_heap 3)
   \<and> dependencies (nodes rerun_heap 3) = [0, 1]
   \<and> (case cleanup_context (Suc 0) rerun_heap of
         None \<Rightarrow> False
       | Some s' \<Rightarrow>
           dependencies (nodes s' 3) = [0, 2]
           \<and> dependants (nodes s' 2) = [3]
           \<and> dependants (nodes s' 0) = []
           \<and> 3 \<notin> set (dependants (nodes s' 0)))"
  by (simp add: rerun_heap_def rerun_start_def initial_state_def new_signal_def new_effect_def
      signal_get_def cleanup_context_def prune_context_sources_def upd_node_def Let_def
      signal_unsubscribe_def signal_subscribe_def array_splice_def)

text \<open>
  C1. The effect runs once (reading signals 0 and 1), signal 0 is written, and the effect
  runs again, keeping signal 0 and reading signal 2 in place of signal 1. The new
  dependency list is the kept prefix followed by the buffer, \<open>[0, 2]\<close>, and the
  effect is tracking, but it is no longer among the dependants of the kept signal 0:
  \<open>prune_context_sources\<close> unsubscribes from the whole old list and only the entries
  from the cursor on are subscribed again. A further write to signal 0 does not reach
  the effect, whose value stays at what it last saw.
\<close>

theorem effect_loses_kept_dependency:
  "(case effect_refresh (Suc (Suc 0)) branching 3 three_signals of
      Some (Returns _, s1) \<Rightarrow>
        dependencies (nodes s1 3) = [0, 1] \<and> dependants (nodes s1 0) = [3]
        \<and> (case signal_set (Suc (Suc (Suc 0))) branching 0 (Num 5) s1 of
              Some (Returns _, s2) \<Rightarrow>
                stored (nodes s2 3) = Num 5
                \<and> dependencies (nodes s2 3) = [0, 2]
                \<and> TRACKING \<in> flags (nodes s2 3)
                \<and> dependants (nodes s2 2) = [3]
                \<and> dependants (nodes s2 0) = []
                \<and> (case signal_set (Suc (Suc (Suc 0))) branching 0 (Num 6) s2 of
                      Some (Returns _, s3) \<Rightarrow>
                        stored (nodes s3 0) = Num 6 \<and> stored (nodes s3 3) = Num 5
                    | _ \<Rightarrow> False)
            | _ \<Rightarrow> False)
    | _ \<Rightarrow> False)"
  by (simp add: three_signals_def initial_state_def new_signal_def new_effect_def
      branching_def effect_refresh_body_def effect_finally_def end_batch_with_def end_batch_def start_batch_def
      signal_get_def signal_set_def cleanup_context_def prune_context_sources_def
      upd_node_def Let_def is_stale_def effect_notify_def
      signal_unsubscribe_def signal_subscribe_def array_splice_def)

subsection \<open>The drain remembers the first error\<close>

lemma remembered_simps:
  "remembered error [] = error"
  "remembered (Some x) errs = Some x"
  "remembered None (y # errs) = Some y"
  "remembered error (errs @ errs') = remembered (remembered error errs) errs'"
  by (auto simp: remembered_def split: option.splits list.splits)

lemma wave_remembers:
  "wave fuel rf er effect error s =
     map_option (\<lambda>(errs, s'). (remembered error errs, s')) (wave_all fuel rf er effect s)"
proof (induction fuel arbitrary: effect error s)
  case 0
  then show ?case by (simp add: remembered_simps split: option.splits)
next
  case (Suc fuel)
  show ?case
    by (cases error)
      (auto simp: Suc Let_def remembered_simps remembered_def
        split: option.splits outcome.splits list.splits)
qed

lemma drain_remembers:
  assumes "\<And>effect error s. w effect error s =
     map_option (\<lambda>(errs, s'). (remembered error errs, s')) (w_all effect s)"
  shows "drain fuel w error s =
     map_option (\<lambda>(errs, s'). (remembered error errs, s')) (drain_all fuel w_all s)"
proof (induction fuel arbitrary: error s)
  case 0
  then show ?case by (simp add: remembered_simps split: option.splits)
next
  case (Suc fuel)
  show ?case
  proof (cases "batched_effect s")
    case None
    then show ?thesis by (simp add: remembered_simps)
  next
    case (Some e)
    let ?s1 = "s\<lparr>batched_effect := None, batch_iteration := batch_iteration s + 1\<rparr>"
    have w: "w (Some e) error ?s1 =
       map_option (\<lambda>(errs, s'). (remembered error errs, s')) (w_all (Some e) ?s1)"
      by (rule assms)
    show ?thesis
      using Some w by (auto simp: Suc remembered_simps split: option.splits)
  qed
qed

text \<open>
  C3. An outermost \<open>end_batch\<close> runs the drain to its end whatever the effects throw:
  the waves processed and the final state are those of the drain that merely collects
  the errors. It then sets \<open>batch_iteration\<close> to 0, leaves the batch, and throws the
  first collected error; with no error collected it returns.
\<close>

theorem end_batch_first_error:
  "batch_depth s \<le> 1 \<Longrightarrow>
   end_batch fuel E s =
     (case drain_all fuel (wave_all fuel (refresh fuel E) (effect_refresh fuel E)) s of
        None \<Rightarrow> None
      | Some (errs, s1) \<Rightarrow>
          Some (case errs of [] \<Rightarrow> Returns () | x # _ \<Rightarrow> Throws x,
                s1\<lparr>batch_iteration := 0, batch_depth := batch_depth s1 - 1\<rparr>))"
  by (simp add: end_batch_def end_batch_with_def Let_def remembered_def
      drain_remembers [OF wave_remembers] split: option.splits list.splits)

lemmas scenario_defs =
  initial_state_def new_signal_def new_effect_def new_computed_def no_client_def
  computed_refresh_def recompute_def effect_refresh_body_def effect_finally_def end_batch_with_def end_batch_def start_batch_def
  signal_get_def signal_set_def cleanup_context_def prune_context_sources_def
  upd_node_def Let_def is_stale_def effect_notify_def written_def
  signal_unsubscribe_def signal_subscribe_def array_splice_def

theorem end_batch_first_error_witness:
  "batch_depth throwers_queued \<le> 1
   \<and> (case drain_all (Suc (Suc (Suc 0)))
              (wave_all (Suc (Suc (Suc 0))) (refresh (Suc (Suc (Suc 0))) throwers)
                 (effect_refresh (Suc (Suc (Suc 0))) throwers)) throwers_queued of
         Some (errs, s1) \<Rightarrow> errs = [Str ''two'', Str ''one'', Str ''three'']
       | None \<Rightarrow> False)
   \<and> (case end_batch (Suc (Suc (Suc 0))) throwers throwers_queued of
         Some (Throws x, s') \<Rightarrow>
           x = Str ''two'' \<and> batch_iteration s' = 0 \<and> batch_depth s' = 0
           \<and> batched_effect s' = None
       | _ \<Rightarrow> False)"
proof -
  let ?n = "Suc (Suc (Suc 0))"
  have depth: "batch_depth throwers_queued \<le> 1"
    by (simp add: throwers_queued_def throwers_heap_def scenario_defs)
  have all: "case drain_all ?n (wave_all ?n (refresh ?n throwers) (effect_refresh ?n throwers))
                 throwers_queued of
         Some (errs, s1) \<Rightarrow> errs = [Str ''two'', Str ''one'', Str ''three'']
            \<and> batch_depth s1 = 1 \<and> batched_effect s1 = None
       | None \<Rightarrow> False"
    by (simp add: throwers_queued_def throwers_heap_def throwers_def scenario_defs)
  show ?thesis
    using depth all end_batch_first_error [OF depth, of ?n throwers]
    by (auto split: option.splits)
qed

subsection \<open>Subscribing and unsubscribing touch the subscriptions only\<close>

lemma subs_only_refl: "subs_only s s"
  by (simp add: subs_only_def)

lemma subs_only_trans: "subs_only a b \<Longrightarrow> subs_only b c \<Longrightarrow> subs_only a c"
  unfolding subs_only_def by (elim conjE, intro conjI allI) (simp_all)

lemma for_each_subs_only:
  assumes "for_each body xs s = Some s'"
    and "\<And>x t t'. x \<in> set xs \<Longrightarrow> body x t = Some t' \<Longrightarrow> subs_only t t'"
  shows "subs_only s s'"
  by (rule for_each_rel [OF assms(1), where R = subs_only])
    (auto intro: assms(2) subs_only_refl subs_only_trans)

lemma signal_subscribe_subs_only: "subs_only s (signal_subscribe x t s)"
  by (simp add: subs_only_def signal_subscribe_def upd_node_def)

lemma signal_unsubscribe_subs_only: "subs_only s (signal_unsubscribe x t s)"
  by (simp add: subs_only_def signal_unsubscribe_def upd_node_def Let_def)

lemma tracking_subs_only:
  "subs_only s (upd_node x (\<lambda>n. n\<lparr>flags := flags n \<union> {TRACKING}\<rparr>) s)"
  "subs_only s (upd_node x (\<lambda>n. n\<lparr>flags := flags n - {TRACKING}\<rparr>) s)"
  by (auto simp: subs_only_def upd_node_def)

lemma subscribe_subs_only: "subscribe fuel x t s = Some s' \<Longrightarrow> subs_only s s'"
proof (induction fuel arbitrary: x t s s')
  case 0
  then show ?case by simp
next
  case (Suc fuel)
  show ?case
  proof (cases "kind (nodes s x)")
    case KSignal
    with Suc.prems show ?thesis by (auto intro: signal_subscribe_subs_only)
  next
    case KEffect
    with Suc.prems show ?thesis by simp
  next
    case KComputed
    show ?thesis
    proof (cases "length (dependants (nodes s x)) < 1")
      case False
      with KComputed Suc.prems show ?thesis by (auto intro: signal_subscribe_subs_only)
    next
      case True
      let ?s1 = "upd_node x (\<lambda>n. n\<lparr>flags := flags n \<union> {TRACKING}\<rparr>) s"
      from Suc.prems KComputed True obtain s2 where
        loop: "for_each (\<lambda>dep. subscribe fuel dep x) (dependencies (nodes s x)) ?s1 = Some s2"
        and s': "s' = signal_subscribe x t s2"
        by (auto simp: Let_def split: option.splits)
      have "subs_only ?s1 s2"
        by (rule for_each_subs_only [OF loop]) (rule Suc.IH)
      then show ?thesis
        unfolding s'
        by (blast intro: subs_only_trans tracking_subs_only signal_subscribe_subs_only)
    qed
  qed
qed

lemma unsubscribe_subs_only: "unsubscribe fuel x t s = Some s' \<Longrightarrow> subs_only s s'"
proof (induction fuel arbitrary: x t s s')
  case 0
  then show ?case by simp
next
  case (Suc fuel)
  show ?case
  proof (cases "kind (nodes s x)")
    case KSignal
    with Suc.prems show ?thesis by (auto intro: signal_unsubscribe_subs_only)
  next
    case KEffect
    with Suc.prems show ?thesis by simp
  next
    case KComputed
    let ?s1 = "signal_unsubscribe x t s"
    show ?thesis
    proof (cases "length (dependants (nodes ?s1 x)) < 1")
      case False
      with KComputed Suc.prems show ?thesis
        by (auto simp: Let_def intro: signal_unsubscribe_subs_only)
    next
      case True
      let ?s2 = "upd_node x (\<lambda>n. n\<lparr>flags := flags n - {TRACKING}\<rparr>) ?s1"
      have loop: "for_each (\<lambda>dep. unsubscribe fuel dep x) (dependencies (nodes ?s1 x)) ?s2 = Some s'"
        using Suc.prems KComputed True by (simp add: Let_def)
      have "subs_only ?s2 s'"
        by (rule for_each_subs_only [OF loop]) (rule Suc.IH)
      then show ?thesis
        by (blast intro: subs_only_trans tracking_subs_only signal_unsubscribe_subs_only)
    qed
  qed
qed

lemma unsubscribe_all_subs_only:
  "for_each (\<lambda>dep. unsubscribe fuel dep l) ds s = Some s' \<Longrightarrow> subs_only s s'"
  by (erule for_each_subs_only) (rule unsubscribe_subs_only)

lemma subscribe_all_subs_only:
  "for_each (\<lambda>dep. subscribe fuel dep l) ds s = Some s' \<Longrightarrow> subs_only s s'"
  by (erule for_each_subs_only) (rule subscribe_subs_only)

subsection \<open>Cleanup\<close>

lemma subs_only_flags:
  "subs_only s s' \<Longrightarrow> X \<noteq> TRACKING \<Longrightarrow> X \<in> flags (nodes s' y) \<longleftrightarrow> X \<in> flags (nodes s y)"
  unfolding subs_only_def by (metis Diff_iff singletonD)

text \<open>
  C8, as amended. When a cleanup function throws, the effect is marked \<open>DISPOSED\<close> (and
  no longer \<open>RUNNING\<close>), it is unsubscribed from each of its dependencies and its
  dependency list is emptied; in the \<open>finally\<close> block its cleanup list is emptied and
  the previous listener is put back, as they also are when no cleanup throws. The error of
  the cleanup reaches the caller when the closing \<open>end_batch\<close> returns; an error thrown
  by that \<open>end_batch\<close> takes its place.
\<close>

theorem cleanup_effect_throwing:
  "cleanups (nodes s e) \<noteq> [] \<longrightarrow>
   (\<forall>s2. run_cleanups E (cleanups (nodes s e)) ((start_batch s)\<lparr>eval_listener := None\<rparr>)
           = Some (Returns (), s2) \<longrightarrow>
      (let s5 = (upd_node e (\<lambda>n. n\<lparr>cleanups := []\<rparr>) s2)\<lparr>eval_listener := eval_listener s\<rparr>
       in cleanups (nodes s5 e) = [] \<and> eval_listener s5 = eval_listener s
          \<and> cleanup_effect eb fuel E e s =
               (case eb s5 of
                  None \<Rightarrow> None
                | Some (Throws x, s6) \<Rightarrow> Some (Throws x, s6)
                | Some (Returns _, s6) \<Rightarrow> Some (Returns (), s6))))
   \<and> (\<forall>err s2 s3.
        run_cleanups E (cleanups (nodes s e)) ((start_batch s)\<lparr>eval_listener := None\<rparr>)
           = Some (Throws err, s2)
        \<and> for_each (\<lambda>dep. unsubscribe fuel dep e) (dependencies (nodes s2 e))
             (upd_node e (\<lambda>n. n\<lparr>flags := (flags n - {RUNNING}) \<union> {DISPOSED}\<rparr>) s2) = Some s3
        \<longrightarrow>
      (let s5 = (upd_node e (\<lambda>n. n\<lparr>dependencies := [], cleanups := []\<rparr>) s3)
                  \<lparr>eval_listener := eval_listener s\<rparr>
       in DISPOSED \<in> flags (nodes s5 e) \<and> RUNNING \<notin> flags (nodes s5 e)
          \<and> dependencies (nodes s5 e) = [] \<and> cleanups (nodes s5 e) = []
          \<and> eval_listener s5 = eval_listener s
          \<and> cleanup_effect eb fuel E e s =
               (case eb s5 of
                  None \<Rightarrow> None
                | Some (Throws x, s6) \<Rightarrow> Some (Throws x, s6)
                | Some (Returns _, s6) \<Rightarrow> Some (Throws err, s6))))"
proof (intro impI conjI allI)
  fix s2
  assume "cleanups (nodes s e) \<noteq> []"
    and "run_cleanups E (cleanups (nodes s e)) ((start_batch s)\<lparr>eval_listener := None\<rparr>)
           = Some (Returns (), s2)"
  then show "let s5 = (upd_node e (\<lambda>n. n\<lparr>cleanups := []\<rparr>) s2)\<lparr>eval_listener := eval_listener s\<rparr>
       in cleanups (nodes s5 e) = [] \<and> eval_listener s5 = eval_listener s
          \<and> cleanup_effect eb fuel E e s =
               (case eb s5 of
                  None \<Rightarrow> None
                | Some (Throws x, s6) \<Rightarrow> Some (Throws x, s6)
                | Some (Returns _, s6) \<Rightarrow> Some (Returns (), s6))"
    by (simp add: cleanup_effect_def Let_def upd_node_def)
next
  fix err s2 s3
  let ?s2' = "upd_node e (\<lambda>n. n\<lparr>flags := (flags n - {RUNNING}) \<union> {DISPOSED}\<rparr>) s2"
  assume cl: "cleanups (nodes s e) \<noteq> []"
    and asm: "run_cleanups E (cleanups (nodes s e)) ((start_batch s)\<lparr>eval_listener := None\<rparr>)
           = Some (Throws err, s2)
        \<and> for_each (\<lambda>dep. unsubscribe fuel dep e) (dependencies (nodes s2 e)) ?s2' = Some s3"
  then have run: "run_cleanups E (cleanups (nodes s e)) ((start_batch s)\<lparr>eval_listener := None\<rparr>)
           = Some (Throws err, s2)"
    and loop: "for_each (\<lambda>dep. unsubscribe fuel dep e) (dependencies (nodes ?s2' e)) ?s2' = Some s3"
    by (simp_all add: upd_node_def)
  have "subs_only ?s2' s3"
    using loop by (rule unsubscribe_all_subs_only)
  then have fl: "DISPOSED \<in> flags (nodes s3 e)" "RUNNING \<notin> flags (nodes s3 e)"
    by (simp_all add: subs_only_flags upd_node_def)
  have d: "dispose_effect (\<lambda>_ _. None) fuel e False ?s2'
             = Some (Returns (), upd_node e (\<lambda>n. n\<lparr>dependencies := []\<rparr>) s3)"
    using loop by (simp add: dispose_effect_def)
  have u: "upd_node e (\<lambda>n. n\<lparr>cleanups := []\<rparr>) (upd_node e (\<lambda>n. n\<lparr>dependencies := []\<rparr>) s3)
             = upd_node e (\<lambda>n. n\<lparr>dependencies := [], cleanups := []\<rparr>) s3"
    by (simp add: upd_node_def)
  show "let s5 = (upd_node e (\<lambda>n. n\<lparr>dependencies := [], cleanups := []\<rparr>) s3)
                  \<lparr>eval_listener := eval_listener s\<rparr>
       in DISPOSED \<in> flags (nodes s5 e) \<and> RUNNING \<notin> flags (nodes s5 e)
          \<and> dependencies (nodes s5 e) = [] \<and> cleanups (nodes s5 e) = []
          \<and> eval_listener s5 = eval_listener s
          \<and> cleanup_effect eb fuel E e s =
               (case eb s5 of
                  None \<Rightarrow> None
                | Some (Throws x, s6) \<Rightarrow> Some (Throws x, s6)
                | Some (Returns _, s6) \<Rightarrow> Some (Throws err, s6))"
    using cl fl
    by (simp add: cleanup_effect_def Let_def run d [simplified] u) (simp add: upd_node_def)
qed

theorem cleanup_effect_throwing_witness:
  "cleanups (nodes cleanup_heap 2) \<noteq> []
   \<and> (case run_cleanups disposer (cleanups (nodes cleanup_heap 2))
              ((start_batch cleanup_heap)\<lparr>eval_listener := None\<rparr>) of
         Some (Throws err, s2) \<Rightarrow>
           err = Str ''cleanup''
           \<and> for_each (\<lambda>dep. unsubscribe (Suc 0) dep 2) (dependencies (nodes s2 2))
                (upd_node 2 (\<lambda>n. n\<lparr>flags := (flags n - {RUNNING}) \<union> {DISPOSED}\<rparr>) s2) \<noteq> None
       | _ \<Rightarrow> False)
   \<and> (case cleanup_effect (end_batch (Suc 0) disposer) (Suc 0) disposer 2 cleanup_heap of
         Some (Throws x, s') \<Rightarrow>
           x = Str ''cleanup'' \<and> DISPOSED \<in> flags (nodes s' 2)
           \<and> dependencies (nodes s' 2) = [] \<and> cleanups (nodes s' 2) = []
           \<and> dependants (nodes s' 0) = [1]
       | _ \<Rightarrow> False)
   \<and> run_cleanups disposer [8] ((start_batch cleanup_heap)\<lparr>eval_listener := None\<rparr>)
        = Some (Returns (), (start_batch cleanup_heap)\<lparr>eval_listener := None\<rparr>)
   \<and> (case cleanup_effect (end_batch (Suc 0) disposer) (Suc 0) disposer 2
              (upd_node 2 (\<lambda>n. n\<lparr>cleanups := [8]\<rparr>) cleanup_heap) of
         Some (Returns _, s') \<Rightarrow> cleanups (nodes s' 2) = [] \<and> dependencies (nodes s' 2) = [0]
       | _ \<Rightarrow> False)"
proof -
  let ?eb = "end_batch (Suc 0) disposer"
  let ?quiet = "(start_batch cleanup_heap)\<lparr>eval_listener := None\<rparr>"
  let ?eight = "upd_node 2 (\<lambda>n. n\<lparr>cleanups := [8]\<rparr>) cleanup_heap"
  have cl: "cleanups (nodes cleanup_heap 2) = [7]" "cleanups (nodes ?eight 2) = [8]"
    by (simp_all add: cleanup_heap_def upd_node_def)
  have q: "(start_batch ?eight)\<lparr>eval_listener := None\<rparr> = upd_node 2 (\<lambda>n. n\<lparr>cleanups := [8]\<rparr>) ?quiet"
    by (simp add: start_batch_def upd_node_def)
  obtain s2 where run: "run_cleanups disposer [7] ?quiet = Some (Throws (Str ''cleanup''), s2)"
    by (simp add: disposer_def cleanup_heap_def scenario_defs)
  obtain s3 where loop: "for_each (\<lambda>dep. unsubscribe (Suc 0) dep 2) (dependencies (nodes s2 2))
        (upd_node 2 (\<lambda>n. n\<lparr>flags := (flags n - {RUNNING}) \<union> {DISPOSED}\<rparr>) s2) = Some s3"
    using run by (auto simp: disposer_def cleanup_heap_def scenario_defs)
  have throwing: "case cleanup_effect ?eb (Suc 0) disposer 2 cleanup_heap of
         Some (Throws x, s') \<Rightarrow>
           x = Str ''cleanup'' \<and> DISPOSED \<in> flags (nodes s' 2)
           \<and> dependencies (nodes s' 2) = [] \<and> cleanups (nodes s' 2) = []
           \<and> dependants (nodes s' 0) = [1]
       | _ \<Rightarrow> False"
    using cleanup_effect_throwing [of cleanup_heap 2 disposer ?eb "Suc 0"] run loop
    by (auto simp: cl Let_def disposer_def cleanup_heap_def scenario_defs)
  have run8: "run_cleanups disposer [8] ?quiet = Some (Returns (), ?quiet)"
    by (simp add: disposer_def)
  have run8': "run_cleanups disposer [8] ((start_batch ?eight)\<lparr>eval_listener := None\<rparr>)
       = Some (Returns (), (start_batch ?eight)\<lparr>eval_listener := None\<rparr>)"
    by (simp add: disposer_def)
  have returning: "case cleanup_effect ?eb (Suc 0) disposer 2 ?eight of
         Some (Returns _, s') \<Rightarrow> cleanups (nodes s' 2) = [] \<and> dependencies (nodes s' 2) = [0]
       | _ \<Rightarrow> False"
    using cleanup_effect_throwing [of ?eight 2 disposer ?eb "Suc 0"] run8'
    by (auto simp: cl Let_def cleanup_heap_def scenario_defs)
  show ?thesis
    using cl run loop throwing run8 returning by simp
qed

text \<open>
  The claim as stated fails when the closing \<open>end_batch\<close> drains. The new effect 2
  throws on its first run, so \<open>effect(fn)\<close> disposes of it, outside any batch; its cleanup
  function writes signal 0 and throws \<open>cleanup\<close>; the closing \<open>end_batch\<close> of
  \<open>cleanup_effect\<close> then runs effect 1, which throws \<open>drain\<close>, and that is the
  error the caller of the disposal receives.
\<close>

theorem cleanup_error_superseded:
  "(case effect_refresh (Suc (Suc 0)) disposer 2
           (disposer_heap\<lparr>nodes := (nodes disposer_heap)(2 := new_effect Undefined)\<rparr>) of
      Some (Throws b, s1) \<Rightarrow>
        b = Str ''body'' \<and> cleanups (nodes s1 2) = [7] \<and> batch_depth s1 = 0
        \<and> (case run_cleanups disposer (cleanups (nodes s1 2))
                   ((start_batch s1)\<lparr>eval_listener := None\<rparr>) of
              Some (Throws c, _) \<Rightarrow> c = Str ''cleanup''
            | _ \<Rightarrow> False)
        \<and> (case effect_dispose (Suc (Suc 0)) disposer 2 s1 of
              Some (Throws x, s2) \<Rightarrow>
                x = Str ''drain'' \<and> DISPOSED \<in> flags (nodes s2 2) \<and> cleanups (nodes s2 2) = []
            | _ \<Rightarrow> False)
    | _ \<Rightarrow> False)
   \<and> (case create_effect (Suc (Suc 0)) disposer 2 Undefined disposer_heap of
         Some (Throws x, _) \<Rightarrow> x = Str ''drain''
       | _ \<Rightarrow> False)"
  by (simp add: create_effect_def effect_dispose_def cleanup_effect_def dispose_effect_def cleanup_def
      disposer_def disposer_heap_def scenario_defs)

subsection \<open>Reconciliation touches the dependency edges only\<close>

lemma same_but_edges_refl: "same_but_edges s s"
  by (simp add: same_but_edges_def)

lemma same_but_edges_trans:
  "same_but_edges a b \<Longrightarrow> same_but_edges b c \<Longrightarrow> same_but_edges a c"
  unfolding same_but_edges_def by (elim conjE, intro conjI allI) (simp_all)

lemma subs_only_same_but_edges: "subs_only s s' \<Longrightarrow> same_but_edges s s'"
  by (simp add: subs_only_def same_but_edges_def)

lemma dependencies_same_but_edges:
  "same_but_edges s (upd_node l (\<lambda>n. n\<lparr>dependencies := ds\<rparr>) s)"
  by (simp add: same_but_edges_def upd_node_def)

lemma same_but_edges_flags:
  "same_but_edges s s' \<Longrightarrow> X \<noteq> TRACKING \<Longrightarrow> X \<in> flags (nodes s' y) \<longleftrightarrow> X \<in> flags (nodes s y)"
  unfolding same_but_edges_def by (metis Diff_iff singletonD)

lemma prune_context_sources_subs_only:
  "prune_context_sources fuel s = Some s' \<Longrightarrow> subs_only s s'"
  by (auto simp: prune_context_sources_def split: option.splits
      intro: unsubscribe_all_subs_only)

lemma cleanup_context_same_but_edges:
  assumes "cleanup_context fuel s = Some s'"
  shows "same_but_edges s s'"
proof (cases "eval_listener s")
  case None
  with assms show ?thesis by (simp add: cleanup_context_def)
next
  case (Some l)
  note l = Some
  show ?thesis
  proof (cases "eval_untracked_sources s")
    case None
    show ?thesis
    proof (cases "eval_sources_index s < length (dependencies (nodes s l))")
      case False
      with assms l None show ?thesis
        by (simp add: cleanup_context_def same_but_edges_refl)
    next
      case True
      with assms l None obtain s1 where p: "prune_context_sources fuel s = Some s1"
        and s': "s' = upd_node l (\<lambda>n. n\<lparr>dependencies :=
                              take (eval_sources_index s1) (dependencies n)\<rparr>) s1"
        by (auto simp: cleanup_context_def split: option.splits)
      have "same_but_edges s s1"
        using p by (blast intro: subs_only_same_but_edges prune_context_sources_subs_only)
      moreover have "same_but_edges s1 s'"
        unfolding s' by (simp add: same_but_edges_def upd_node_def)
      ultimately show ?thesis by (rule same_but_edges_trans)
    qed
  next
    case (Some buf)
    from assms l Some obtain s1 where p: "prune_context_sources fuel s = Some s1"
      by (auto simp: cleanup_context_def split: option.splits)
    let ?i = "eval_sources_index s1"
    let ?s2 = "if ?i > 0
               then upd_node l (\<lambda>n. n\<lparr>dependencies := take ?i (dependencies n) @ buf\<rparr>) s1
               else upd_node l (\<lambda>n. n\<lparr>dependencies := buf\<rparr>) s1"
    have a: "same_but_edges s s1"
      using p by (blast intro: subs_only_same_but_edges prune_context_sources_subs_only)
    have b: "same_but_edges s1 ?s2"
      by (simp add: same_but_edges_def upd_node_def)
    have c: "same_but_edges ?s2 s'"
    proof (cases "TRACKING \<in> flags (nodes ?s2 l)")
      case False
      with assms l Some p have "s' = ?s2"
        by (auto simp: cleanup_context_def Let_def split: if_splits)
      then show ?thesis by (simp add: same_but_edges_refl)
    next
      case True
      with assms l Some p
      have "for_each (\<lambda>dep. subscribe fuel dep l) (drop ?i (dependencies (nodes ?s2 l))) ?s2 = Some s'"
        by (auto simp: cleanup_context_def Let_def split: if_splits)
      then show ?thesis
        by (blast intro: subs_only_same_but_edges subscribe_all_subs_only)
    qed
    from a b c show ?thesis by (blast intro: same_but_edges_trans)
  qed
qed

subsection \<open>The refresh of a computed signal, by stages\<close>

lemma computed_refresh_go:
  "refresh_go rf c s = Some s2 \<Longrightarrow>
   computed_refresh rf fuel E c s = recompute fuel E c (flags (nodes s c) - {NOTIFIED}) s2"
  unfolding computed_refresh_def refresh_go_def Let_def
  by (auto split: if_splits option.splits bool.splits prod.splits)

lemma recompute_stages:
  "recompute fuel E c fl s2 =
     (case compute E c (stored (nodes s2 c)) (enter_context c s2) of
        None \<Rightarrow> None
      | Some (Throws err, s4) \<Rightarrow>
          (case cleanup_context fuel (stamp_error c err s4) of
             None \<Rightarrow> None
           | Some s6 \<Rightarrow> Some (True, leave_context c s2 s6))
      | Some (Returns v, s4) \<Rightarrow>
          if HAS_ERROR \<in> fl \<or> stored (nodes s2 c) \<noteq> v \<or> epoch (nodes s4 c) = - 1
          then (case cleanup_context fuel (stamp_value c v s4) of
                  None \<Rightarrow> None
                | Some s6 \<Rightarrow> Some (True, leave_context c s2 s6))
          else (case cleanup_context fuel s4 of
                  None \<Rightarrow> None
                | Some s6 \<Rightarrow> Some (False, leave_context c s2 s6)))"
  unfolding recompute_def enter_context_def stamp_error_def stamp_value_def leave_context_def
    Let_def
  by (simp split: option.splits outcome.splits)

lemma computed_refresh_settled:
  "realm_write_epoch (nodes s c) = write_clock s \<Longrightarrow>
   computed_refresh rf fuel E c s =
     Some (False, upd_node c (\<lambda>n. n\<lparr>flags := flags n - {NOTIFIED}\<rparr>) s)"
  by (simp add: computed_refresh_def Let_def upd_node_def)

lemma signal_get_frame:
  "fst (signal_get x s) = stored (nodes s x)"
  "write_clock (snd (signal_get x s)) = write_clock s"
  "stored (nodes (snd (signal_get x s)) y) = stored (nodes s y)"
  "flags (nodes (snd (signal_get x s)) y) = flags (nodes s y)"
  "epoch (nodes (snd (signal_get x s)) y) = epoch (nodes s y)"
  "realm_write_epoch (nodes (snd (signal_get x s)) y) = realm_write_epoch (nodes s y)"
  by (auto simp: signal_get_def upd_node_def Let_def split: option.splits)

lemma computed_peek_cached:
  "computed_peek fuel E c s = Some (r, s1) \<Longrightarrow> r = cached c s1"
  by (auto simp: computed_peek_def cached_def split: option.splits if_splits)

lemma computed_get_cached:
  "computed_get fuel E c s = Some (r, s1) \<Longrightarrow> r = cached c s1"
  by (auto simp: computed_get_def cached_def split_beta signal_get_frame
      split: option.splits if_splits)

lemma read_settled:
  assumes "realm_write_epoch (nodes s c) = write_clock s"
  shows "\<exists>s'. (if tracked then computed_get fuel E c s else computed_peek fuel E c s)
                 = Some (cached c s, s')
              \<and> realm_write_epoch (nodes s' c) = write_clock s' \<and> cached c s' = cached c s"
proof -
  let ?s1 = "upd_node c (\<lambda>n. n\<lparr>flags := flags n - {NOTIFIED}\<rparr>) s"
  have r: "computed_refresh (refresh fuel E) fuel E c s = Some (False, ?s1)"
    using assms by (rule computed_refresh_settled)
  have c1: "cached c ?s1 = cached c s" "realm_write_epoch (nodes ?s1 c) = write_clock ?s1"
    using assms by (simp_all add: cached_def upd_node_def)
  show ?thesis
  proof (cases tracked)
    case False
    have "computed_peek fuel E c s = Some (cached c ?s1, ?s1)"
      using r by (simp add: computed_peek_def cached_def)
    then show ?thesis using False c1 by simp
  next
    case True
    let ?s2 = "snd (signal_get c ?s1)"
    have "computed_get fuel E c s = Some (cached c ?s1, ?s2)"
      using r by (simp add: computed_get_def cached_def split_beta signal_get_frame)
    moreover have "cached c ?s2 = cached c ?s1"
      "realm_write_epoch (nodes ?s2 c) = write_clock ?s2"
      using c1(2) by (simp_all add: cached_def signal_get_frame)
    ultimately show ?thesis using True c1 by simp
  qed
qed

lemma reads_settled:
  "realm_write_epoch (nodes s c) = write_clock s \<Longrightarrow>
   \<exists>s'. reads fuel E c ks s = Some (replicate (length ks) (cached c s), s')"
proof (induction ks arbitrary: s)
  case Nil
  then show ?case by simp
next
  case (Cons k ks)
  from read_settled [OF Cons.prems, of k fuel E] obtain s1 where
    one: "(if k then computed_get fuel E c s else computed_peek fuel E c s) = Some (cached c s, s1)"
    and inv: "realm_write_epoch (nodes s1 c) = write_clock s1" "cached c s1 = cached c s"
    by blast
  from Cons.IH [OF inv(1)] obtain s' where
    "reads fuel E c ks s1 = Some (replicate (length ks) (cached c s1), s')" by blast
  then show ?case using one inv(2) by simp
qed

lemma leave_stamped:
  assumes "cleanup_context fuel t = Some s6"
  shows "stored (nodes (leave_context c s2 s6) c) = stored (nodes t c)"
    and "X \<noteq> TRACKING \<Longrightarrow> X \<noteq> RUNNING \<Longrightarrow>
         X \<in> flags (nodes (leave_context c s2 s6) c) \<longleftrightarrow> X \<in> flags (nodes t c)"
    and "epoch (nodes (leave_context c s2 s6) c) = epoch (nodes t c)"
    and "realm_write_epoch (nodes (leave_context c s2 s6) c) = realm_write_epoch (nodes t c)"
    and "write_clock (leave_context c s2 s6) = write_clock t"
proof -
  have e: "same_but_edges t s6"
    using assms by (rule cleanup_context_same_but_edges)
  then show "stored (nodes (leave_context c s2 s6) c) = stored (nodes t c)"
    and "epoch (nodes (leave_context c s2 s6) c) = epoch (nodes t c)"
    and "realm_write_epoch (nodes (leave_context c s2 s6) c) = realm_write_epoch (nodes t c)"
    and "write_clock (leave_context c s2 s6) = write_clock t"
    by (simp_all add: same_but_edges_def leave_context_def upd_node_def)
  show "X \<noteq> TRACKING \<Longrightarrow> X \<noteq> RUNNING \<Longrightarrow>
         X \<in> flags (nodes (leave_context c s2 s6) c) \<longleftrightarrow> X \<in> flags (nodes t c)"
    using same_but_edges_flags [OF e, of X c]
    by (simp add: leave_context_def upd_node_def)
qed

text \<open>
  C5. When the refresh of a computed signal calls the compute function and it throws, the
  thrown value becomes the cached value, \<open>HAS_ERROR\<close> is set, the write clock ticks and
  both epochs of the node are stamped with it, and the refresh reports a change; every
  read that follows, tracked or not, throws that value again. When the node is in error
  and a later refresh calls the compute function and it returns, \<open>HAS_ERROR\<close> is
  cleared, the value is stored, a change is reported, and the reads that follow return
  the value. In any state a read hands back the cached value, thrown exactly when
  \<open>HAS_ERROR\<close> is set.
\<close>

theorem computed_error_is_cached:
  "(refresh_go rf c s = Some s2 \<longrightarrow>
      (\<forall>err s4 s6.
         compute E c (stored (nodes s2 c)) (enter_context c s2) = Some (Throws err, s4)
         \<and> cleanup_context fuel (stamp_error c err s4) = Some s6 \<longrightarrow>
         (let s' = leave_context c s2 s6
          in computed_refresh rf fuel E c s = Some (True, s')
             \<and> stored (nodes s' c) = err \<and> HAS_ERROR \<in> flags (nodes s' c)
             \<and> write_clock s' = write_clock s4 + 1
             \<and> epoch (nodes s' c) = write_clock s4 + 1
             \<and> realm_write_epoch (nodes s' c) = write_clock s4 + 1
             \<and> (\<forall>fuel' E' ks. \<exists>s''. reads fuel' E' c ks s'
                    = Some (replicate (length ks) (Throws err), s''))))
      \<and> (\<forall>v s4 s6.
           HAS_ERROR \<in> flags (nodes s c)
           \<and> compute E c (stored (nodes s2 c)) (enter_context c s2) = Some (Returns v, s4)
           \<and> cleanup_context fuel (stamp_value c v s4) = Some s6 \<longrightarrow>
           (let s' = leave_context c s2 s6
            in computed_refresh rf fuel E c s = Some (True, s')
               \<and> stored (nodes s' c) = v \<and> HAS_ERROR \<notin> flags (nodes s' c)
               \<and> (\<forall>fuel' E' ks. \<exists>s''. reads fuel' E' c ks s'
                      = Some (replicate (length ks) (Returns v), s'')))))
   \<and> (\<forall>r s1. computed_peek fuel E c s = Some (r, s1) \<or> computed_get fuel E c s = Some (r, s1)
         \<longrightarrow> r = cached c s1)"
proof (intro conjI impI allI)
  fix err s4 s6
  assume go: "refresh_go rf c s = Some s2"
    and "compute E c (stored (nodes s2 c)) (enter_context c s2) = Some (Throws err, s4)
         \<and> cleanup_context fuel (stamp_error c err s4) = Some s6"
  then have th: "compute E c (stored (nodes s2 c)) (enter_context c s2) = Some (Throws err, s4)"
    and cc: "cleanup_context fuel (stamp_error c err s4) = Some s6" by simp_all
  let ?s' = "leave_context c s2 s6"
  have r: "computed_refresh rf fuel E c s = Some (True, ?s')"
    by (simp add: computed_refresh_go [OF go] recompute_stages th cc)
  have fields: "stored (nodes ?s' c) = err" "HAS_ERROR \<in> flags (nodes ?s' c)"
    "write_clock ?s' = write_clock s4 + 1" "epoch (nodes ?s' c) = write_clock s4 + 1"
    "realm_write_epoch (nodes ?s' c) = write_clock s4 + 1"
    by (simp_all add: leave_stamped [OF cc] stamp_error_def upd_node_def)
  then have "cached c ?s' = Throws err" by (simp add: cached_def)
  moreover have "realm_write_epoch (nodes ?s' c) = write_clock ?s'" using fields by simp
  ultimately have "\<forall>fuel' E' ks. \<exists>s''. reads fuel' E' c ks ?s'
                    = Some (replicate (length ks) (Throws err), s'')"
    using reads_settled [of ?s' c] by metis
  then show "let s' = leave_context c s2 s6
          in computed_refresh rf fuel E c s = Some (True, s')
             \<and> stored (nodes s' c) = err \<and> HAS_ERROR \<in> flags (nodes s' c)
             \<and> write_clock s' = write_clock s4 + 1
             \<and> epoch (nodes s' c) = write_clock s4 + 1
             \<and> realm_write_epoch (nodes s' c) = write_clock s4 + 1
             \<and> (\<forall>fuel' E' ks. \<exists>s''. reads fuel' E' c ks s'
                    = Some (replicate (length ks) (Throws err), s''))"
    using r fields by (simp add: Let_def)
next
  fix v s4 s6
  assume go: "refresh_go rf c s = Some s2"
    and "HAS_ERROR \<in> flags (nodes s c)
           \<and> compute E c (stored (nodes s2 c)) (enter_context c s2) = Some (Returns v, s4)
           \<and> cleanup_context fuel (stamp_value c v s4) = Some s6"
  then have he: "HAS_ERROR \<in> flags (nodes s c)"
    and rt: "compute E c (stored (nodes s2 c)) (enter_context c s2) = Some (Returns v, s4)"
    and cc: "cleanup_context fuel (stamp_value c v s4) = Some s6" by simp_all
  let ?s' = "leave_context c s2 s6"
  have r: "computed_refresh rf fuel E c s = Some (True, ?s')"
    by (simp add: computed_refresh_go [OF go] recompute_stages rt cc he)
  have fields: "stored (nodes ?s' c) = v" "HAS_ERROR \<notin> flags (nodes ?s' c)"
    "realm_write_epoch (nodes ?s' c) = write_clock ?s'"
    by (simp_all add: leave_stamped [OF cc] stamp_value_def upd_node_def)
  then have "cached c ?s' = Returns v" by (simp add: cached_def)
  then have "\<forall>fuel' E' ks. \<exists>s''. reads fuel' E' c ks ?s'
                    = Some (replicate (length ks) (Returns v), s'')"
    using reads_settled [of ?s' c] fields(3) by metis
  then show "let s' = leave_context c s2 s6
            in computed_refresh rf fuel E c s = Some (True, s')
               \<and> stored (nodes s' c) = v \<and> HAS_ERROR \<notin> flags (nodes s' c)
               \<and> (\<forall>fuel' E' ks. \<exists>s''. reads fuel' E' c ks s'
                      = Some (replicate (length ks) (Returns v), s''))"
    using r fields by (simp add: Let_def)
next
  fix r s1
  assume "computed_peek fuel E c s = Some (r, s1) \<or> computed_get fuel E c s = Some (r, s1)"
  then show "r = cached c s1"
    by (blast dest: computed_peek_cached computed_get_cached)
qed

theorem computed_error_is_cached_witness:
  "(case refresh_go (refresh 0 fallible) 1 fallible_heap of
      Some s2 \<Rightarrow>
        (case compute fallible 1 (stored (nodes s2 1)) (enter_context 1 s2) of
           Some (Throws err, s4) \<Rightarrow>
             err = Str ''zero'' \<and> write_clock s4 = 0
             \<and> cleanup_context (Suc 0) (stamp_error 1 err s4) \<noteq> None
         | _ \<Rightarrow> False)
    | None \<Rightarrow> False)
   \<and> (case computed_refresh (refresh 0 fallible) (Suc 0) fallible 1 fallible_heap of
         Some (changed, s') \<Rightarrow>
           changed \<and> stored (nodes s' 1) = Str ''zero'' \<and> HAS_ERROR \<in> flags (nodes s' 1)
           \<and> write_clock s' = 1 \<and> epoch (nodes s' 1) = 1 \<and> realm_write_epoch (nodes s' 1) = 1
           \<and> (case reads 0 no_client 1 [False, True] s' of
                 Some (rs, _) \<Rightarrow> rs = [Throws (Str ''zero''), Throws (Str ''zero'')]
               | None \<Rightarrow> False)
       | None \<Rightarrow> False)
   \<and> HAS_ERROR \<in> flags (nodes fallible_failed 1)
   \<and> (case refresh_go (refresh 0 fallible) 1 fallible_failed of
         Some s2 \<Rightarrow>
           (case compute fallible 1 (stored (nodes s2 1)) (enter_context 1 s2) of
              Some (Returns v, s4) \<Rightarrow>
                v = Num 4 \<and> cleanup_context (Suc 0) (stamp_value 1 v s4) \<noteq> None
            | _ \<Rightarrow> False)
       | None \<Rightarrow> False)
   \<and> (case computed_refresh (refresh 0 fallible) (Suc 0) fallible 1 fallible_failed of
         Some (changed, s') \<Rightarrow>
           changed \<and> stored (nodes s' 1) = Num 4 \<and> HAS_ERROR \<notin> flags (nodes s' 1)
           \<and> (case reads 0 no_client 1 [True, False] s' of
                 Some (rs, _) \<Rightarrow> rs = [Returns (Num 4), Returns (Num 4)]
               | None \<Rightarrow> False)
       | None \<Rightarrow> False)
   \<and> computed_peek 0 fallible 1 (upd_node 1 (\<lambda>n. n\<lparr>flags := {HAS_ERROR, RUNNING}\<rparr>) fallible_failed)
       = Some (Throws (Str ''zero''),
               upd_node 1 (\<lambda>n. n\<lparr>flags := {HAS_ERROR, RUNNING}\<rparr>) fallible_failed)"
proof -
  let ?rf = "refresh 0 fallible"
  note defs = fallible_def fallible_heap_def fallible_failed_def refresh_go_def enter_context_def
    stamp_error_def stamp_value_def scenario_defs
  obtain s2 where go: "refresh_go ?rf 1 fallible_heap = Some s2"
    by (simp add: defs)
  obtain s4 where th: "compute fallible 1 (stored (nodes s2 1)) (enter_context 1 s2)
      = Some (Throws (Str ''zero''), s4)" and w4: "write_clock s4 = 0"
    using go by (auto simp: defs)
  obtain s6 where cc: "cleanup_context (Suc 0) (stamp_error 1 (Str ''zero'') s4) = Some s6"
    using go th by (auto simp: defs)
  have first: "case computed_refresh ?rf (Suc 0) fallible 1 fallible_heap of
         Some (changed, s') \<Rightarrow>
           changed \<and> stored (nodes s' 1) = Str ''zero'' \<and> HAS_ERROR \<in> flags (nodes s' 1)
           \<and> write_clock s' = 1 \<and> epoch (nodes s' 1) = 1 \<and> realm_write_epoch (nodes s' 1) = 1
           \<and> (case reads 0 no_client 1 [False, True] s' of
                 Some (rs, _) \<Rightarrow> rs = [Throws (Str ''zero''), Throws (Str ''zero'')]
               | None \<Rightarrow> False)
       | None \<Rightarrow> False"
  proof -
    from computed_error_is_cached [of ?rf 1 fallible_heap s2 fallible "Suc 0"] go th cc
    have all: "computed_refresh ?rf (Suc 0) fallible 1 fallible_heap = Some (True, leave_context 1 s2 s6)
        \<and> stored (nodes (leave_context 1 s2 s6) 1) = Str ''zero''
        \<and> HAS_ERROR \<in> flags (nodes (leave_context 1 s2 s6) 1)
        \<and> write_clock (leave_context 1 s2 s6) = write_clock s4 + 1
        \<and> epoch (nodes (leave_context 1 s2 s6) 1) = write_clock s4 + 1
        \<and> realm_write_epoch (nodes (leave_context 1 s2 s6) 1) = write_clock s4 + 1
        \<and> (\<forall>fuel' E' ks. \<exists>s''. reads fuel' E' 1 ks (leave_context 1 s2 s6)
                    = Some (replicate (length ks) (Throws (Str ''zero'')), s''))"
      unfolding Let_def by blast
    then have r: "computed_refresh ?rf (Suc 0) fallible 1 fallible_heap = Some (True, leave_context 1 s2 s6)"
      and f: "stored (nodes (leave_context 1 s2 s6) 1) = Str ''zero''"
        "HAS_ERROR \<in> flags (nodes (leave_context 1 s2 s6) 1)"
        "write_clock (leave_context 1 s2 s6) = 1"
        "epoch (nodes (leave_context 1 s2 s6) 1) = 1"
        "realm_write_epoch (nodes (leave_context 1 s2 s6) 1) = 1"
      using w4 by simp_all
    from all have rd: "\<exists>s''. reads 0 no_client 1 [False, True] (leave_context 1 s2 s6)
                 = Some (replicate (length [False, True]) (Throws (Str ''zero'')), s'')"
      by blast
    from rd obtain s'' where "reads 0 no_client 1 [False, True] (leave_context 1 s2 s6)
                 = Some ([Throws (Str ''zero''), Throws (Str ''zero'')], s'')"
      unfolding length_Cons list.size replicate.simps by blast
    then show ?thesis using r f by simp
  qed
  have he: "HAS_ERROR \<in> flags (nodes fallible_failed 1)"
    by (simp add: defs)
  obtain t2 where go2: "refresh_go ?rf 1 fallible_failed = Some t2"
    by (simp add: defs)
  obtain t4 where rt: "compute fallible 1 (stored (nodes t2 1)) (enter_context 1 t2)
      = Some (Returns (Num 4), t4)"
    using go2 by (auto simp: defs)
  obtain t6 where cc2: "cleanup_context (Suc 0) (stamp_value 1 (Num 4) t4) = Some t6"
    using go2 rt by (auto simp: defs)
  have second: "case computed_refresh ?rf (Suc 0) fallible 1 fallible_failed of
         Some (changed, s') \<Rightarrow>
           changed \<and> stored (nodes s' 1) = Num 4 \<and> HAS_ERROR \<notin> flags (nodes s' 1)
           \<and> (case reads 0 no_client 1 [True, False] s' of
                 Some (rs, _) \<Rightarrow> rs = [Returns (Num 4), Returns (Num 4)]
               | None \<Rightarrow> False)
       | None \<Rightarrow> False"
  proof -
    from computed_error_is_cached [of ?rf 1 fallible_failed t2 fallible "Suc 0"] go2 rt cc2 he
    have all: "computed_refresh ?rf (Suc 0) fallible 1 fallible_failed = Some (True, leave_context 1 t2 t6)
        \<and> stored (nodes (leave_context 1 t2 t6) 1) = Num 4
        \<and> HAS_ERROR \<notin> flags (nodes (leave_context 1 t2 t6) 1)
        \<and> (\<forall>fuel' E' ks. \<exists>s''. reads fuel' E' 1 ks (leave_context 1 t2 t6)
                    = Some (replicate (length ks) (Returns (Num 4)), s''))"
      unfolding Let_def by blast
    then have r: "computed_refresh ?rf (Suc 0) fallible 1 fallible_failed = Some (True, leave_context 1 t2 t6)"
      and f: "stored (nodes (leave_context 1 t2 t6) 1) = Num 4"
        "HAS_ERROR \<notin> flags (nodes (leave_context 1 t2 t6) 1)"
      by simp_all
    from all have rd: "\<exists>s''. reads 0 no_client 1 [True, False] (leave_context 1 t2 t6)
                 = Some (replicate (length [True, False]) (Returns (Num 4)), s'')"
      by blast
    from rd obtain s'' where "reads 0 no_client 1 [True, False] (leave_context 1 t2 t6)
                 = Some ([Returns (Num 4), Returns (Num 4)], s'')"
      unfolding length_Cons list.size replicate.simps by blast
    then show ?thesis using r f by simp
  qed
  let ?busy = "upd_node 1 (\<lambda>n. n\<lparr>flags := {HAS_ERROR, RUNNING}\<rparr>) fallible_failed"
  have third: "computed_peek 0 fallible 1 ?busy = Some (Throws (Str ''zero''), ?busy)"
  proof -
    have p: "computed_peek 0 fallible 1 ?busy = Some (Throws (Str ''zero''), ?busy)"
      by (simp add: computed_peek_def defs)
    with computed_error_is_cached [of ?rf 1 ?busy s2 fallible 0]
    have "Throws (Str ''zero'') = cached 1 ?busy" by blast
    with p show ?thesis by simp
  qed
  show ?thesis
    using go th w4 cc first he go2 rt cc2 second third by simp
qed

subsection \<open>What a refresh may change\<close>

lemma stale_walk_rel:
  assumes "stale_walk rf target deps s = Some (b, s')"
    and "\<And>t. R t t"
    and "\<And>a b c. R a b \<Longrightarrow> R b c \<Longrightarrow> R a c"
    and "\<And>x t b t'. rf x t = Some (b, t') \<Longrightarrow> R t t'"
  shows "R s s'"
  using assms(1)
proof (induction deps arbitrary: s)
  case Nil
  then show ?case using assms(2) by simp
next
  case (Cons d ds)
  show ?case
  proof (cases "epoch (nodes s d) > epoch (nodes s target)")
    case True
    with Cons.prems show ?thesis using assms(2) by simp
  next
    case False
    with Cons.prems obtain changed t where rf: "rf d s = Some (changed, t)"
      and rest: "if changed then (b, s') = (True, t)
                 else stale_walk rf target ds t = Some (b, s')"
      by (auto split: option.splits if_splits)
    have st: "R s t" using rf by (rule assms(4))
    show ?thesis
    proof (cases changed)
      case True
      with rest st show ?thesis by simp
    next
      case False
      with rest have "R t s'" by (simp add: Cons.IH)
      with st show ?thesis by (rule assms(3))
    qed
  qed
qed

lemma is_stale_rel:
  assumes "is_stale rf target fl s = Some (b, s')"
    and "\<And>t. R t t"
    and "\<And>a b c. R a b \<Longrightarrow> R b c \<Longrightarrow> R a c"
    and "\<And>x t b t'. rf x t = Some (b, t') \<Longrightarrow> R t t'"
  shows "R s s'"
proof (cases "DIRTY \<notin> fl \<and> MAYBE_DIRTY \<in> fl")
  case True
  with assms(1) have "stale_walk rf target (dependencies (nodes s target)) s = Some (b, s')"
    by (simp add: is_stale_def)
  then show ?thesis using assms(2-4) by (rule stale_walk_rel)
next
  case False
  with assms(1) have "s' = s" by (auto simp: is_stale_def split: if_splits)
  then show ?thesis using assms(2) by simp
qed

lemma recompute_rel:
  assumes "recompute fuel E c fl s2 = Some (b, s')"
    and trans: "\<And>a b c. R a b \<Longrightarrow> R b c \<Longrightarrow> R a c"
    and edges: "\<And>t t'. same_but_edges t t' \<Longrightarrow> R t t'"
    and client: "\<And>d p t r t'. compute E d p t = Some (r, t') \<Longrightarrow> R t t'"
    and own: "\<And>d t t'. own_step d t t' \<Longrightarrow> R t t'"
  shows "R s2 s'"
proof -
  from assms(1) obtain r s4 where
    c: "compute E c (stored (nodes s2 c)) (enter_context c s2) = Some (r, s4)"
    by (auto simp: recompute_stages split: option.splits)
  have a: "R s2 (enter_context c s2)" by (rule own) (rule own_step.enter)
  have b: "R (enter_context c s2) s4" using c by (rule client)
  from assms(1) c obtain s5 s6 where
    s5: "s5 = s4 \<or> (\<exists>v. s5 = stamp_value c v s4) \<or> (\<exists>err. s5 = stamp_error c err s4)"
    and cc: "cleanup_context fuel s5 = Some s6"
    and s': "s' = leave_context c s2 s6"
    by (cases r) (auto simp: recompute_stages split: option.splits if_splits)
  have d: "R s4 s6"
  proof -
    have e: "R s5 s6"
      using cc by (blast intro: edges cleanup_context_same_but_edges)
    from s5 show ?thesis
    proof (elim disjE exE)
      assume "s5 = s4"
      with e show ?thesis by simp
    next
      fix v assume eq: "s5 = stamp_value c v s4"
      have "R s4 (stamp_value c v s4)" by (rule own) (rule own_step.stamped)
      with e eq show ?thesis by (blast intro: trans)
    next
      fix err assume eq: "s5 = stamp_error c err s4"
      have "R s4 (stamp_error c err s4)" by (rule own) (rule own_step.error)
      with e eq show ?thesis by (blast intro: trans)
    qed
  qed
  have f: "R s6 s'" unfolding s' by (rule own) (rule own_step.leave)
  from a b d f show ?thesis by (blast intro: trans)
qed

lemma computed_refresh_rel:
  assumes "computed_refresh rf fuel E c s = Some (b, s')"
    and k: "kind (nodes s c) = KComputed"
    and refl: "\<And>t. R t t"
    and trans: "\<And>a b c. R a b \<Longrightarrow> R b c \<Longrightarrow> R a c"
    and edges: "\<And>t t'. same_but_edges t t' \<Longrightarrow> R t t'"
    and client: "\<And>d p t r t'. compute E d p t = Some (r, t') \<Longrightarrow> R t t'"
    and own: "\<And>d t t'. own_step d t t' \<Longrightarrow> R t t'"
    and rf: "\<And>x t b t'. rf x t = Some (b, t') \<Longrightarrow> R t t'"
  shows "R s s'"
proof -
  let ?fl = "flags (nodes s c) - {NOTIFIED}"
  let ?s0 = "upd_node c (\<lambda>n. n\<lparr>flags := ?fl\<rparr>) s"
  let ?s1 = "upd_node c (\<lambda>n. n\<lparr>flags := (?fl - {DIRTY} - {MAYBE_DIRTY}) \<union> {RUNNING},
                                realm_write_epoch := write_clock ?s0\<rparr>) ?s0"
  have s0: "?s0 = upd_node c (\<lambda>n. n\<lparr>flags := flags n - {NOTIFIED}\<rparr>) s"
    by (simp add: upd_node_def)
  have s1: "?s1 = upd_node c (\<lambda>n. n\<lparr>flags := (flags n - {DIRTY} - {MAYBE_DIRTY}) \<union> {RUNNING},
                                     realm_write_epoch := write_clock ?s0\<rparr>) ?s0"
    by (simp add: upd_node_def)
  have a: "R s ?s0" unfolding s0 using k by (blast intro: own own_step.unnotify)
  have b: "R ?s0 ?s1" unfolding s1 by (rule own) (rule own_step.mark)
  show ?thesis
  proof (cases "realm_write_epoch (nodes ?s0 c) = write_clock ?s0
            \<or> ?fl \<inter> {TRACKING, DIRTY, MAYBE_DIRTY} = {TRACKING} \<or> RUNNING \<in> ?fl")
    case True
    with assms(1) have "s' = ?s0" by (simp add: computed_refresh_def Let_def)
    with a show ?thesis by simp
  next
    case False
    with assms(1) obtain go s2 where
      st: "(if epoch (nodes ?s1 c) > - 1 then is_stale rf c ?fl ?s1 else Some (True, ?s1))
             = Some (go, s2)"
      and rest: "if \<not> go then s' = upd_node c (\<lambda>n. n\<lparr>flags := flags n - {RUNNING}\<rparr>) s2
                 else recompute fuel E c ?fl s2 = Some (b, s')"
      unfolding computed_refresh_def Let_def
      by (simp split: option.splits prod.splits if_splits)
    have c: "R ?s1 s2"
    proof (cases "epoch (nodes ?s1 c) > - 1")
      case True
      with st have "is_stale rf c ?fl ?s1 = Some (go, s2)" by simp
      then show ?thesis using refl trans rf by (rule is_stale_rel)
    next
      case False
      with st show ?thesis using refl by simp
    qed
    have d: "R s2 s'"
    proof (cases go)
      case False
      have "R s2 (upd_node c (\<lambda>n. n\<lparr>flags := flags n - {RUNNING}\<rparr>) s2)"
        by (rule own) (rule own_step.unmark)
      with False rest show ?thesis by simp
    next
      case True
      with rest have "recompute fuel E c ?fl s2 = Some (b, s')" by simp
      then show ?thesis using trans edges client own by (rule recompute_rel)
    qed
    from a b c d show ?thesis by (blast intro: trans)
  qed
qed

lemma refresh_rel:
  assumes refl: "\<And>t. R t t"
    and trans: "\<And>a b c. R a b \<Longrightarrow> R b c \<Longrightarrow> R a c"
    and edges: "\<And>t t'. same_but_edges t t' \<Longrightarrow> R t t'"
    and client: "\<And>d p t r t'. compute E d p t = Some (r, t') \<Longrightarrow> R t t'"
    and own: "\<And>d t t'. own_step d t t' \<Longrightarrow> R t t'"
  shows "refresh fuel E x s = Some (b, s') \<Longrightarrow> R s s'"
proof (induction fuel arbitrary: x s b s')
  case 0
  then show ?case by simp
next
  case (Suc fuel)
  show ?case
  proof (cases "kind (nodes s x)")
    case KSignal
    with Suc.prems show ?thesis using refl by simp
  next
    case KEffect
    with Suc.prems show ?thesis by simp
  next
    case KComputed
    with Suc.prems have "computed_refresh (refresh fuel E) fuel E x s = Some (b, s')" by simp
    then show ?thesis
      using KComputed refl trans edges client own Suc.IH by (rule computed_refresh_rel)
  qed
qed

subsection \<open>Repeated reads of a computed signal\<close>

lemma calm_refl: "calm c t t"
  by (simp add: calm_def)

lemma calm_trans: "calm c a b \<Longrightarrow> calm c b d \<Longrightarrow> calm c a d"
  unfolding calm_def by blast

lemma calm_edges: "same_but_edges t t' \<Longrightarrow> calm c t t'"
  using same_but_edges_flags [of t t' DIRTY c] same_but_edges_flags [of t t' MAYBE_DIRTY c]
  by (simp add: calm_def) (simp add: same_but_edges_def)

lemma calm_own: "own_step d t t' \<Longrightarrow> calm c t t'"
  by (induction rule: own_step.induct)
    (auto simp: calm_def upd_node_def enter_context_def leave_context_def stamp_error_def
      stamp_value_def)

lemma refresh_calm:
  assumes "\<forall>d p t r t'. compute E d p t = Some (r, t') \<longrightarrow> calm c t t'"
    and "refresh fuel E x s = Some (b, s')"
  shows "calm c s s'"
  by (rule refresh_rel [where R = "calm c" and E = E, OF _ _ _ _ _ assms(2)])
    (use assms(1) in \<open>blast intro: calm_refl calm_trans calm_edges calm_own\<close>)+

lemma refresh_quiet:
  assumes "settled c s"
  shows "\<exists>s'. computed_refresh rf fuel E c s = Some (False, s')
              \<and> settled c s' \<and> cached c s' = cached c s"
proof -
  let ?fl = "flags (nodes s c) - {NOTIFIED}"
  let ?s0 = "upd_node c (\<lambda>n. n\<lparr>flags := ?fl\<rparr>) s"
  let ?g = "realm_write_epoch (nodes ?s0 c) = write_clock ?s0
            \<or> ?fl \<inter> {TRACKING, DIRTY, MAYBE_DIRTY} = {TRACKING} \<or> RUNNING \<in> ?fl"
  show ?thesis
  proof (cases ?g)
    case True
    then have "computed_refresh rf fuel E c s = Some (False, ?s0)"
      by (simp add: computed_refresh_def Let_def)
    moreover have "settled c ?s0"
      using True by (auto simp: settled_def upd_node_def)
    moreover have "cached c ?s0 = cached c s"
      by (simp add: cached_def upd_node_def)
    ultimately show ?thesis by blast
  next
    case False
    let ?s1 = "upd_node c (\<lambda>n. n\<lparr>flags := (?fl - {DIRTY} - {MAYBE_DIRTY}) \<union> {RUNNING},
                                  realm_write_epoch := write_clock ?s0\<rparr>) ?s0"
    let ?s' = "upd_node c (\<lambda>n. n\<lparr>flags := flags n - {RUNNING}\<rparr>) ?s1"
    from False assms have clean: "DIRTY \<notin> flags (nodes s c)" "MAYBE_DIRTY \<notin> flags (nodes s c)"
      and ep: "epoch (nodes s c) > - 1"
      by (auto simp: settled_def upd_node_def)
    have e1: "epoch (nodes ?s1 c) > - 1" using ep by (simp add: upd_node_def)
    have st: "is_stale rf c ?fl ?s1 = Some (False, ?s1)"
      using clean by (simp add: is_stale_def)
    have "computed_refresh rf fuel E c s = Some (False, ?s')"
      using False e1 st unfolding computed_refresh_def Let_def by simp
    moreover have "settled c ?s'"
      using clean ep by (simp add: settled_def upd_node_def)
    moreover have "cached c ?s' = cached c s"
      by (simp add: cached_def upd_node_def)
    ultimately show ?thesis by blast
  qed
qed

lemma signal_get_settled:
  "settled c (snd (signal_get x s)) = settled c s"
  "cached c (snd (signal_get x s)) = cached c s"
  by (simp_all add: settled_def cached_def signal_get_frame)

lemma read_quiet:
  assumes "settled c s"
  shows "\<exists>s'. (if tracked then computed_get fuel E c s else computed_peek fuel E c s)
                 = Some (cached c s, s')
              \<and> settled c s' \<and> cached c s' = cached c s"
proof -
  from refresh_quiet [OF assms, of "refresh fuel E" fuel E] obtain s1 where
    r: "computed_refresh (refresh fuel E) fuel E c s = Some (False, s1)"
    and s1: "settled c s1" "cached c s1 = cached c s" by blast
  show ?thesis
  proof (cases tracked)
    case False
    have "computed_peek fuel E c s = Some (cached c s1, s1)"
      using r by (simp add: computed_peek_def cached_def)
    then show ?thesis using False s1 by simp
  next
    case True
    let ?s2 = "snd (signal_get c s1)"
    have "computed_get fuel E c s = Some (cached c s1, ?s2)"
      using r by (simp add: computed_get_def cached_def split_beta signal_get_frame)
    then show ?thesis using True s1 by (simp add: signal_get_settled)
  qed
qed

lemma reads_quiet:
  "settled c s \<Longrightarrow>
   \<exists>s'. reads fuel E c ks s = Some (replicate (length ks) (cached c s), s')"
proof (induction ks arbitrary: s)
  case Nil
  then show ?case by simp
next
  case (Cons k ks)
  from read_quiet [OF Cons.prems, of k fuel E] obtain s1 where
    one: "(if k then computed_get fuel E c s else computed_peek fuel E c s) = Some (cached c s, s1)"
    and inv: "settled c s1" "cached c s1 = cached c s"
    by blast
  from Cons.IH [OF inv(1)] obtain s' where
    "reads fuel E c ks s1 = Some (replicate (length ks) (cached c s1), s')" by blast
  then show ?case using one inv(2) by simp
qed

lemma refresh_settles:
  assumes client: "\<forall>d p t r t'. compute E d p t = Some (r, t') \<longrightarrow> calm c t t'"
    and sound: "0 \<le> write_clock s" "- 1 \<le> epoch (nodes s c)"
    and r: "computed_refresh (refresh fuel E) fuel E c s = Some (b, s')"
  shows "settled c s'"
proof -
  let ?rf = "refresh fuel E"
  let ?fl = "flags (nodes s c) - {NOTIFIED}"
  let ?s0 = "upd_node c (\<lambda>n. n\<lparr>flags := ?fl\<rparr>) s"
  let ?g = "realm_write_epoch (nodes ?s0 c) = write_clock ?s0
            \<or> ?fl \<inter> {TRACKING, DIRTY, MAYBE_DIRTY} = {TRACKING} \<or> RUNNING \<in> ?fl"
  let ?s1 = "upd_node c (\<lambda>n. n\<lparr>flags := (?fl - {DIRTY} - {MAYBE_DIRTY}) \<union> {RUNNING},
                                realm_write_epoch := write_clock ?s0\<rparr>) ?s0"
  show ?thesis
  proof (cases ?g)
    case True
    with r have "s' = ?s0" by (simp add: computed_refresh_def Let_def)
    then show ?thesis using True by (auto simp: settled_def upd_node_def)
  next
    case False
    with r obtain go s2 where
      st: "(if epoch (nodes ?s1 c) > - 1 then is_stale ?rf c ?fl ?s1 else Some (True, ?s1))
             = Some (go, s2)"
      and rest: "if \<not> go then s' = upd_node c (\<lambda>n. n\<lparr>flags := flags n - {RUNNING}\<rparr>) s2
                 else recompute fuel E c ?fl s2 = Some (b, s')"
      unfolding computed_refresh_def Let_def
      by (simp split: option.splits prod.splits if_splits)
    have s1: "DIRTY \<notin> flags (nodes ?s1 c)" "MAYBE_DIRTY \<notin> flags (nodes ?s1 c)"
      "0 \<le> write_clock ?s1" "- 1 \<le> epoch (nodes ?s1 c)"
      "epoch (nodes ?s1 c) = epoch (nodes s c)"
      using sound by (simp_all add: upd_node_def)
    have c12: "calm c ?s1 s2"
    proof (cases "epoch (nodes ?s1 c) > - 1")
      case True
      with st have "is_stale ?rf c ?fl ?s1 = Some (go, s2)" by simp
      then show ?thesis
        by (rule is_stale_rel) (blast intro: calm_refl calm_trans refresh_calm [OF client])+
    next
      case False
      with st show ?thesis by (simp add: calm_refl)
    qed
    then have s2: "DIRTY \<notin> flags (nodes s2 c)" "MAYBE_DIRTY \<notin> flags (nodes s2 c)"
      "0 \<le> write_clock s2" "- 1 \<le> epoch (nodes s2 c)"
      using s1 unfolding calm_def by blast+
    show ?thesis
    proof (cases go)
      case False
      with st have "epoch (nodes ?s1 c) > - 1" by (auto split: if_splits)
      with c12 s1 have "epoch (nodes s2 c) > - 1" unfolding calm_def by blast
      moreover from False rest have "s' = upd_node c (\<lambda>n. n\<lparr>flags := flags n - {RUNNING}\<rparr>) s2"
        by simp
      ultimately show ?thesis using s2 by (simp add: settled_def upd_node_def)
    next
      case True
      with rest have rc: "recompute fuel E c ?fl s2 = Some (b, s')" by simp
      then obtain r s4 where
        cp: "compute E c (stored (nodes s2 c)) (enter_context c s2) = Some (r, s4)"
        by (auto simp: recompute_stages split: option.splits)
      have "calm c s2 (enter_context c s2)" by (rule calm_own) (rule own_step.enter)
      moreover have "calm c (enter_context c s2) s4" using client cp by blast
      ultimately have "calm c s2 s4" by (rule calm_trans)
      then have s4: "DIRTY \<notin> flags (nodes s4 c)" "MAYBE_DIRTY \<notin> flags (nodes s4 c)"
        "0 \<le> write_clock s4" "- 1 \<le> epoch (nodes s4 c)"
        using s2 unfolding calm_def by blast+
      from rc cp obtain s5 s6 where
        s5: "(s5 = s4 \<and> epoch (nodes s4 c) \<noteq> - 1) \<or> (\<exists>v. s5 = stamp_value c v s4)
             \<or> (\<exists>err. s5 = stamp_error c err s4)"
        and cc: "cleanup_context fuel s5 = Some s6"
        and s': "s' = leave_context c s2 s6"
        by (cases r) (auto simp: recompute_stages split: option.splits if_splits)
      from s5 s4 have five: "DIRTY \<notin> flags (nodes s5 c)" "MAYBE_DIRTY \<notin> flags (nodes s5 c)"
        "- 1 < epoch (nodes s5 c)"
        by (auto simp: stamp_value_def stamp_error_def upd_node_def)
      have "DIRTY \<notin> flags (nodes s' c)" "MAYBE_DIRTY \<notin> flags (nodes s' c)"
        "- 1 < epoch (nodes s' c)"
        using five by (simp_all add: s' leave_stamped [OF cc])
      then show ?thesis by (simp add: settled_def)
    qed
  qed
qed

lemma computed_refresh_running:
  assumes "computed_refresh rf fuel E c s = Some (b, s')"
    and "RUNNING \<in> flags (nodes s' c)"
  shows "RUNNING \<in> flags (nodes s c)"
proof -
  let ?fl = "flags (nodes s c) - {NOTIFIED}"
  let ?s0 = "upd_node c (\<lambda>n. n\<lparr>flags := ?fl\<rparr>) s"
  let ?g = "realm_write_epoch (nodes ?s0 c) = write_clock ?s0
            \<or> ?fl \<inter> {TRACKING, DIRTY, MAYBE_DIRTY} = {TRACKING} \<or> RUNNING \<in> ?fl"
  let ?s1 = "upd_node c (\<lambda>n. n\<lparr>flags := (?fl - {DIRTY} - {MAYBE_DIRTY}) \<union> {RUNNING},
                                realm_write_epoch := write_clock ?s0\<rparr>) ?s0"
  show ?thesis
  proof (cases ?g)
    case True
    with assms(1) have "s' = ?s0" by (simp add: computed_refresh_def Let_def)
    with assms(2) show ?thesis by (simp add: upd_node_def)
  next
    case False
    with assms(1) obtain go s2 where
      st: "(if epoch (nodes ?s1 c) > - 1 then is_stale rf c ?fl ?s1 else Some (True, ?s1))
             = Some (go, s2)"
      and rest: "if \<not> go then s' = upd_node c (\<lambda>n. n\<lparr>flags := flags n - {RUNNING}\<rparr>) s2
                 else recompute fuel E c ?fl s2 = Some (b, s')"
      unfolding computed_refresh_def Let_def
      by (simp split: option.splits prod.splits if_splits)
    have "RUNNING \<notin> flags (nodes s' c)"
    proof (cases go)
      case False
      with rest show ?thesis by (simp add: upd_node_def)
    next
      case True
      with rest have "recompute fuel E c ?fl s2 = Some (b, s')" by simp
      then obtain s6 where "s' = leave_context c s2 s6"
        by (auto simp: recompute_stages split: option.splits outcome.splits if_splits)
      then show ?thesis by (simp add: leave_context_def upd_node_def)
    qed
    with assms(2) show ?thesis by simp
  qed
qed

lemma read_running:
  assumes "(if k then computed_get fuel E c s else computed_peek fuel E c s) = Some (r, s1)"
    and "RUNNING \<in> flags (nodes s1 c)"
  shows "RUNNING \<in> flags (nodes s c)"
proof -
  from assms(1) obtain b s0 where
    r: "computed_refresh (refresh fuel E) fuel E c s = Some (b, s0)"
    and s1: "s1 = (if k then snd (signal_get c s0) else s0)"
    by (auto simp: computed_get_def computed_peek_def split_beta
        split: option.splits if_splits)
  from assms(2) have "RUNNING \<in> flags (nodes s0 c)"
    by (simp add: s1 signal_get_frame split: if_splits)
  with r show ?thesis by (rule computed_refresh_running)
qed

text \<open>
  C6, as amended. Let no client function mark the computed signal \<open>c\<close> dirty (as only
  a write could), in a state whose write clock is not negative and where the epoch of
  \<open>c\<close> is not below \<open>-1\<close>. After a first read of \<open>c\<close>, tracked or not, one of four
  things holds of the node, each of which makes \<open>Computed._refresh\<close> return before the
  compute call: \<open>realm_write_epoch\<close> equals \<open>write_clock\<close>; or \<open>c\<close> is \<open>TRACKING\<close> with
  neither \<open>DIRTY\<close> nor \<open>MAYBE_DIRTY\<close>; or \<open>c\<close> is \<open>RUNNING\<close>, and then it was already
  before the read (the read came from inside its own computation); or \<open>c\<close> has been
  computed and carries neither \<open>DIRTY\<close> nor \<open>MAYBE_DIRTY\<close>, so that \<open>is_stale\<close> answers
  false. Every sequence of further reads hands back the outcome of the first read,
  whatever the client functions are: none of them is called, so the compute function of
  \<open>c\<close> runs at most once, within the first read. The fourth case looks at neither the
  write clock nor the dependencies; it is stated for reads with no write in between.
\<close>

theorem repeated_reads:
  assumes "\<forall>d p t r t'. compute E d p t = Some (r, t') \<longrightarrow> calm c t t'"
    and "0 \<le> write_clock s"
    and "- 1 \<le> epoch (nodes s c)"
    and "(if k then computed_get fuel E c s else computed_peek fuel E c s) = Some (r, s1)"
  shows "(realm_write_epoch (nodes s1 c) = write_clock s1
          \<or> flags (nodes s1 c) \<inter> {TRACKING, DIRTY, MAYBE_DIRTY} = {TRACKING}
          \<or> (RUNNING \<in> flags (nodes s1 c) \<and> RUNNING \<in> flags (nodes s c))
          \<or> (DIRTY \<notin> flags (nodes s1 c) \<and> MAYBE_DIRTY \<notin> flags (nodes s1 c)
              \<and> epoch (nodes s1 c) > - 1))
         \<and> (\<forall>fuel' E' ks. \<exists>s'. reads fuel' E' c ks s1 = Some (replicate (length ks) r, s'))
         \<and> (\<forall>ks rs s'. reads fuel E c (k # ks) s = Some (rs, s') \<longrightarrow>
               rs = replicate (Suc (length ks)) r)"
proof -
  from assms(4) obtain b s0 where
    r: "computed_refresh (refresh fuel E) fuel E c s = Some (b, s0)"
    and s1: "s1 = (if k then snd (signal_get c s0) else s0)"
    by (auto simp: computed_get_def computed_peek_def split_beta
        split: option.splits if_splits)
  have "settled c s0"
    using assms(1-3) r by (rule refresh_settles)
  then have st: "settled c s1" by (simp add: s1 signal_get_settled)
  have run: "RUNNING \<in> flags (nodes s1 c) \<Longrightarrow> RUNNING \<in> flags (nodes s c)"
    using assms(4) by (rule read_running)
  have four: "realm_write_epoch (nodes s1 c) = write_clock s1
          \<or> flags (nodes s1 c) \<inter> {TRACKING, DIRTY, MAYBE_DIRTY} = {TRACKING}
          \<or> (RUNNING \<in> flags (nodes s1 c) \<and> RUNNING \<in> flags (nodes s c))
          \<or> (DIRTY \<notin> flags (nodes s1 c) \<and> MAYBE_DIRTY \<notin> flags (nodes s1 c)
              \<and> epoch (nodes s1 c) > - 1)"
    using st run unfolding settled_def by blast
  have c: "r = cached c s1"
    using assms(4) by (auto dest: computed_get_cached computed_peek_cached split: if_splits)
  have later: "\<And>fuel' E' ks. \<exists>s'. reads fuel' E' c ks s1 = Some (replicate (length ks) r, s')"
    unfolding c using st by (rule reads_quiet)
  have "\<And>ks rs s'. reads fuel E c (k # ks) s = Some (rs, s') \<Longrightarrow>
               rs = replicate (Suc (length ks)) r"
  proof -
    fix ks rs s'
    assume a: "reads fuel E c (k # ks) s = Some (rs, s')"
    from later [of fuel E ks] obtain s'' where
      "reads fuel E c ks s1 = Some (replicate (length ks) r, s'')" by blast
    with a assms(4) show "rs = replicate (Suc (length ks)) r" by auto
  qed
  with four later show ?thesis by blast
qed

lemma fallible_calm:
  "\<forall>d p t r t'. compute fallible d p t = Some (r, t') \<longrightarrow> calm 1 t t'"
proof (intro allI impI)
  fix d p t r t'
  assume "compute fallible d p t = Some (r, t')"
  then have "t' = snd (signal_get 0 t)"
    by (auto simp: fallible_def split_beta split: if_splits)
  then show "calm 1 t t'"
    by (simp add: calm_def signal_get_frame)
qed

theorem repeated_reads_witness:
  "calm_client 1 fallible
   \<and> 0 \<le> write_clock fallible_failed
   \<and> - 1 \<le> epoch (nodes fallible_failed 1)
   \<and> (case computed_peek (Suc 0) fallible 1 fallible_failed of
         Some (r, s1) \<Rightarrow>
           r = Returns (Num 4) \<and> settled 1 s1
           \<and> (case reads 0 no_client 1 [True, False, False] s1 of
                 Some (rs, _) \<Rightarrow> rs = [Returns (Num 4), Returns (Num 4), Returns (Num 4)]
               | None \<Rightarrow> False)
       | None \<Rightarrow> False)"
proof -
  have w: "0 \<le> write_clock fallible_failed" "- 1 \<le> epoch (nodes fallible_failed 1)"
    by (simp_all add: fallible_failed_def scenario_defs)
  obtain s1 where p: "computed_peek (Suc 0) fallible 1 fallible_failed = Some (Returns (Num 4), s1)"
    by (simp add: computed_peek_def fallible_def fallible_failed_def scenario_defs)
  then have p': "(if False then computed_get (Suc 0) fallible 1 fallible_failed
                  else computed_peek (Suc 0) fallible 1 fallible_failed) = Some (Returns (Num 4), s1)"
    by simp
  from repeated_reads [OF fallible_calm w p']
  have st: "settled 1 s1"
    and rd: "\<exists>s'. reads 0 no_client 1 [True, False, False] s1
               = Some (replicate (length [True, False, False]) (Returns (Num 4)), s')"
    unfolding settled_def by blast+
  from rd obtain s' where "reads 0 no_client 1 [True, False, False] s1
      = Some ([Returns (Num 4), Returns (Num 4), Returns (Num 4)], s')"
    unfolding length_Cons list.size replicate.simps by blast
  moreover have "calm_client 1 fallible"
    unfolding calm_client_def by (rule fallible_calm)
  ultimately show ?thesis using w p st by simp
qed

text \<open>
  The reason given in the claim fails. The effect 3 is created and subscribes the
  computed signal 2, then signal 0 is written; the re-run of the effect recomputes the
  computed signal 2, during which the computed signal 1 is computed for the first time
  and ticks the write clock, while the value of the computed signal 2 stays 0 and is not
  stamped. Two reads of the computed signal 2 follow: both return 0 and neither
  recomputes, but \<open>realm_write_epoch\<close> differs from \<open>write_clock\<close> after the first;
  the node is \<open>TRACKING\<close> and carries no dirt.
\<close>

theorem second_read_with_stale_realm:
  "(case create_effect (Suc (Suc (Suc (Suc 0)))) watching_client 3 Undefined nested_heap of
      Some (Returns _, sa) \<Rightarrow>
        (case signal_set (Suc (Suc (Suc (Suc 0)))) watching_client 0 (Num 1) sa of
           Some (Returns _, sb) \<Rightarrow>
             (case computed_peek (Suc (Suc (Suc 0))) watching_client 2 sb of
                Some (r1, s1) \<Rightarrow>
                  r1 = Returns (Num 0)
                  \<and> realm_write_epoch (nodes s1 2) = 2 \<and> write_clock s1 = 3
                  \<and> realm_write_epoch (nodes s1 2) \<noteq> write_clock s1
                  \<and> flags (nodes s1 2) = {TRACKING}
                  \<and> (\<forall>E'. case computed_peek 0 E' 2 s1 of
                             Some (r2, s2) \<Rightarrow> r2 = r1 \<and> s2 = s1
                           | None \<Rightarrow> False)
              | None \<Rightarrow> False)
         | _ \<Rightarrow> False)
    | _ \<Rightarrow> False)"
  by (simp add: create_effect_def computed_get_def computed_peek_def
      watching_client_def nested_client_def constant_client_def nested_heap_def scenario_defs
      insert_Diff_if)

subsection \<open>What a step inside a batch keeps of the queue\<close>

lemma queue_kept_refl: "queue_kept t t"
  by (simp add: queue_kept_def)

lemma queue_kept_trans: "queue_kept a b \<Longrightarrow> queue_kept b c \<Longrightarrow> queue_kept a c"
  unfolding queue_kept_def by force

lemma queue_kept_edges: "same_but_edges t t' \<Longrightarrow> queue_kept t t'"
  using same_but_edges_flags [of t t' NOTIFIED]
  by (simp add: queue_kept_def parked_def) (simp add: same_but_edges_def)

lemma queue_kept_own: "own_step d t t' \<Longrightarrow> queue_kept t t'"
  by (induction rule: own_step.induct)
    (auto simp: queue_kept_def parked_def upd_node_def enter_context_def leave_context_def
      stamp_error_def stamp_value_def)

lemma refresh_queue_kept:
  assumes "\<forall>d p t r t'. compute E d p t = Some (r, t') \<longrightarrow> queue_kept t t'"
    and "refresh fuel E x s = Some (b, s')"
  shows "queue_kept s s'"
  by (rule refresh_rel [where R = queue_kept and E = E, OF _ _ _ _ _ assms(2)])
    (use assms(1) in \<open>blast intro: queue_kept_refl queue_kept_trans queue_kept_edges
      queue_kept_own\<close>)+

lemma is_stale_queue_kept:
  assumes "\<forall>d p t r t'. compute E d p t = Some (r, t') \<longrightarrow> queue_kept t t'"
    and "is_stale (refresh fuel E) target fl s = Some (b, s')"
  shows "queue_kept s s'"
  using assms(2)
  by (rule is_stale_rel)
    (blast intro: queue_kept_refl queue_kept_trans refresh_queue_kept [OF assms(1)])+

lemma run_cleanups_queue_kept:
  assumes "\<forall>f t r t'. cleanup_fn E f t = Some (r, t') \<longrightarrow> queue_kept t t'"
  shows "run_cleanups E cl s = Some (r, s') \<Longrightarrow> queue_kept s s'"
proof (induction cl arbitrary: s)
  case Nil
  then show ?case by (simp add: queue_kept_refl)
next
  case (Cons f fs)
  from Cons.prems obtain r1 s1 where f: "cleanup_fn E f s = Some (r1, s1)"
    by (auto split: option.splits)
  with assms have a: "queue_kept s s1" by blast
  show ?case
  proof (cases r1)
    case (Throws err)
    with Cons.prems f have "s' = s1" by simp
    with a show ?thesis by simp
  next
    case (Returns u)
    with Cons.prems f have "run_cleanups E fs s1 = Some (r, s')" by simp
    then have "queue_kept s1 s'" by (rule Cons.IH)
    with a show ?thesis by (rule queue_kept_trans)
  qed
qed

lemma dispose_effect_queue_kept:
  assumes "dispose_effect ce fuel e rc s = Some (r, s')"
    and "\<And>t r t'. ce e t = Some (r, t') \<Longrightarrow> queue_kept t t'"
  shows "queue_kept s s'"
proof -
  from assms(1) obtain s1 where
    loop: "for_each (\<lambda>dep. unsubscribe fuel dep e) (dependencies (nodes s e)) s = Some s1"
    and rest: "(if rc then ce e (upd_node e (\<lambda>n. n\<lparr>dependencies := []\<rparr>) s1)
                else Some (Returns (), upd_node e (\<lambda>n. n\<lparr>dependencies := []\<rparr>) s1)) = Some (r, s')"
    by (auto simp: dispose_effect_def Let_def split: option.splits)
  let ?s2 = "upd_node e (\<lambda>n. n\<lparr>dependencies := []\<rparr>) s1"
  have "same_but_edges s s1"
    using loop by (blast intro: subs_only_same_but_edges unsubscribe_all_subs_only)
  then have "same_but_edges s ?s2"
    by (blast intro: same_but_edges_trans dependencies_same_but_edges)
  then have a: "queue_kept s ?s2" by (rule queue_kept_edges)
  show ?thesis
  proof (cases rc)
    case True
    with rest have "queue_kept ?s2 s'" by (simp add: assms(2))
    with a show ?thesis by (rule queue_kept_trans)
  next
    case False
    with rest a show ?thesis by simp
  qed
qed

lemma end_batch_with_nested:
  "1 < batch_depth t \<Longrightarrow>
   end_batch_with dr t = Some (Returns (), t\<lparr>batch_depth := batch_depth t - 1\<rparr>)"
  by (simp add: end_batch_with_def)

lemma queue_keptD:
  "queue_kept t t' \<Longrightarrow> 1 \<le> batch_depth t \<Longrightarrow>
   batch_depth t \<le> batch_depth t' \<and> (\<forall>y n. parked y n t \<longrightarrow> parked y n t')"
  by (simp add: queue_kept_def)

lemma cleanup_effect_queue_kept:
  assumes cf: "\<forall>f t r t'. cleanup_fn E f t = Some (r, t') \<longrightarrow> queue_kept t t'"
    and ce: "cleanup_effect (end_batch_with dr) fuel E e s = Some (r, s')"
  shows "queue_kept s s'"
proof (cases "cleanups (nodes s e) = []")
  case True
  with ce have "s' = s" by (simp add: cleanup_effect_def)
  then show ?thesis by (simp add: queue_kept_refl)
next
  case False
  let ?s1 = "(start_batch s)\<lparr>eval_listener := None\<rparr>"
  from ce False obtain r1 s2 where
    run: "run_cleanups E (cleanups (nodes s e)) ?s1 = Some (r1, s2)"
    by (auto simp: cleanup_effect_def Let_def split: option.splits)
  let ?s2' = "upd_node e (\<lambda>n. n\<lparr>flags := (flags n - {RUNNING}) \<union> {DISPOSED}\<rparr>) s2"
  from ce False run obtain s4 p where
    mid: "(s4 = s2) \<or> (\<exists>q. dispose_effect (\<lambda>_ _. None) fuel e False ?s2' = Some (q, s4))"
    and fin: "end_batch_with dr ((upd_node e (\<lambda>n. n\<lparr>cleanups := []\<rparr>) s4)
                 \<lparr>eval_listener := eval_listener s\<rparr>) = Some (p, s')"
    by (cases r1)
      (auto simp: cleanup_effect_def Let_def split: option.splits outcome.splits prod.splits)
  let ?s5 = "(upd_node e (\<lambda>n. n\<lparr>cleanups := []\<rparr>) s4)\<lparr>eval_listener := eval_listener s\<rparr>"
  show ?thesis
    unfolding queue_kept_def
  proof (intro impI)
    assume d: "1 \<le> batch_depth s"
    have k1: "batch_depth ?s1 = batch_depth s + 1" "\<And>y n. parked y n s \<Longrightarrow> parked y n ?s1"
      by (simp_all add: start_batch_def parked_def)
    have q12: "queue_kept ?s1 s2"
      using run by (rule run_cleanups_queue_kept [OF cf])
    have q24: "queue_kept s2 s4"
    proof -
      from mid show ?thesis
      proof
        assume "s4 = s2"
        then show ?thesis by (simp add: queue_kept_refl)
      next
        assume "\<exists>q. dispose_effect (\<lambda>_ _. None) fuel e False ?s2' = Some (q, s4)"
        then obtain q where "dispose_effect (\<lambda>_ _. None) fuel e False ?s2' = Some (q, s4)" ..
        then have "queue_kept ?s2' s4" by (rule dispose_effect_queue_kept) simp
        moreover have "queue_kept s2 ?s2'"
          by (auto simp: queue_kept_def parked_def upd_node_def)
        ultimately show ?thesis by (blast intro: queue_kept_trans)
      qed
    qed
    have q45: "queue_kept s4 ?s5"
      by (auto simp: queue_kept_def parked_def upd_node_def)
    have "queue_kept ?s1 ?s5"
      using q12 q24 q45 by (blast intro: queue_kept_trans)
    with k1 d have k5: "batch_depth s + 1 \<le> batch_depth ?s5"
      "\<And>y n. parked y n s \<Longrightarrow> parked y n ?s5"
      by (auto dest!: queue_keptD)
    then have "1 < batch_depth ?s5" using d by linarith
    with fin have "s' = ?s5\<lparr>batch_depth := batch_depth ?s5 - 1\<rparr>"
      by (simp add: end_batch_with_nested)
    then show "batch_depth s \<le> batch_depth s' \<and> (\<forall>y n. parked y n s \<longrightarrow> parked y n s')"
      using k5 by (simp add: parked_def)
  qed
qed

lemma effect_finally_queue_kept:
  assumes cf: "\<forall>f t r t'. cleanup_fn E f t = Some (r, t') \<longrightarrow> queue_kept t t'"
    and fin: "effect_finally (end_batch_with dr) fuel E e pl ps pi pending s4 = Some (r, s')"
    and d: "1 < batch_depth s4"
  shows "batch_depth s4 - 1 \<le> batch_depth s' \<and> (\<forall>y n. parked y n s4 \<longrightarrow> parked y n s')"
proof -
  from fin obtain s5 where cc: "cleanup_context fuel s4 = Some s5"
    by (auto simp: effect_finally_def split: option.splits)
  let ?s6 = "upd_node e (\<lambda>n. n\<lparr>flags := flags n - {RUNNING}\<rparr>)
               (s5\<lparr>eval_listener := pl, eval_untracked_sources := ps,
                   eval_sources_index := pi\<rparr>)"
  from fin cc obtain r7 s7 where
    dz: "(if DISPOSED \<in> flags (nodes ?s6 e)
          then dispose_effect (cleanup_effect (end_batch_with dr) fuel E) fuel e True ?s6
          else Some (Returns (), ?s6)) = Some (r7, s7)"
    and last: "(s' = s7) \<or> (\<exists>p. end_batch_with dr s7 = Some (p, s'))"
    unfolding effect_finally_def Let_def
    by (auto split: option.splits outcome.splits prod.splits)
  have q45: "queue_kept s4 s5"
    using cc by (blast intro: queue_kept_edges cleanup_context_same_but_edges)
  have q56: "queue_kept s5 ?s6"
    by (auto simp: queue_kept_def parked_def upd_node_def)
  have q67: "queue_kept ?s6 s7"
  proof (cases "DISPOSED \<in> flags (nodes ?s6 e)")
    case False
    with dz show ?thesis by (simp add: queue_kept_refl)
  next
    case True
    with dz have "dispose_effect (cleanup_effect (end_batch_with dr) fuel E) fuel e True ?s6
                    = Some (r7, s7)" by simp
    then show ?thesis
      by (rule dispose_effect_queue_kept) (rule cleanup_effect_queue_kept [OF cf])
  qed
  have "queue_kept s4 s7"
    using q45 q56 q67 by (blast intro: queue_kept_trans)
  with d have k7: "batch_depth s4 \<le> batch_depth s7" "\<And>y n. parked y n s4 \<Longrightarrow> parked y n s7"
    by (auto dest!: queue_keptD)
  from last show ?thesis
  proof
    assume "s' = s7"
    with k7 show ?thesis by auto
  next
    assume "\<exists>p. end_batch_with dr s7 = Some (p, s')"
    then obtain p where e: "end_batch_with dr s7 = Some (p, s')" ..
    have "1 < batch_depth s7" using k7(1) d by linarith
    with e have "s' = s7\<lparr>batch_depth := batch_depth s7 - 1\<rparr>"
      by (simp add: end_batch_with_nested)
    then show ?thesis using k7 by (simp add: parked_def)
  qed
qed

lemma effect_refresh_body_queue_kept:
  assumes client: "\<forall>d p t r t'. compute E d p t = Some (r, t') \<longrightarrow> queue_kept t t'"
    and cf: "\<forall>f t r t'. cleanup_fn E f t = Some (r, t') \<longrightarrow> queue_kept t t'"
    and er: "effect_refresh_body (end_batch_with dr) fuel E e s = Some (r, s')"
  shows "queue_kept s s'"
proof (cases "RUNNING \<in> flags (nodes s e)")
  case True
  with er have "s' = s" by (simp add: effect_refresh_body_def)
  then show ?thesis by (simp add: queue_kept_refl)
next
  case False
  let ?fl = "flags (nodes s e)"
  let ?s1 = "(start_batch s)\<lparr>eval_listener := Some e, eval_untracked_sources := None,
                              eval_sources_index := 0\<rparr>"
  let ?s2 = "(upd_node e (\<lambda>n. n\<lparr>epoch := write_clock ?s1, context_epoch := read_clock ?s1,
                                  flags := (?fl - {DIRTY} - {MAYBE_DIRTY}) \<union> {RUNNING}\<rparr>) ?s1)
               \<lparr>read_clock := read_clock ?s1 + 1\<rparr>"
  from er False obtain r3 s3 where
    cp: "compute E e (stored (nodes ?s2 e)) ?s2 = Some (r3, s3)"
    unfolding effect_refresh_body_def Let_def by (auto split: option.splits)
  from er False cp obtain s4 pending where
    s4: "s4 = s3 \<or> (\<exists>v. s4 = upd_node e (\<lambda>n. n\<lparr>stored := v\<rparr>) s3)"
    and fin: "effect_finally (end_batch_with dr) fuel E e (eval_listener s)
                (eval_untracked_sources s) (eval_sources_index s) pending s4 = Some (r, s')"
    unfolding effect_refresh_body_def Let_def by (cases r3) auto
  show ?thesis
    unfolding queue_kept_def
  proof (intro impI)
    assume d: "1 \<le> batch_depth s"
    have k2: "batch_depth ?s2 = batch_depth s + 1" "\<And>y n. parked y n s \<Longrightarrow> parked y n ?s2"
      by (auto simp: start_batch_def parked_def upd_node_def)
    have q23: "queue_kept ?s2 s3" using client cp by blast
    have q34: "queue_kept s3 s4"
      using s4 by (auto simp: queue_kept_def parked_def upd_node_def)
    have "queue_kept ?s2 s4" using q23 q34 by (rule queue_kept_trans)
    with k2 d have k4: "batch_depth s + 1 \<le> batch_depth s4"
      "\<And>y n. parked y n s \<Longrightarrow> parked y n s4"
      by (auto dest!: queue_keptD)
    then have "1 < batch_depth s4" using d by linarith
    with effect_finally_queue_kept [OF cf fin]
    have "batch_depth s4 - 1 \<le> batch_depth s'" "\<And>y n. parked y n s4 \<Longrightarrow> parked y n s'"
      by blast+
    with k4 show "batch_depth s \<le> batch_depth s' \<and> (\<forall>y n. parked y n s \<longrightarrow> parked y n s')"
      by force
  qed
qed

lemma effect_refresh_queue_kept:
  assumes "\<forall>d p t r t'. compute E d p t = Some (r, t') \<longrightarrow> queue_kept t t'"
    and "\<forall>f t r t'. cleanup_fn E f t = Some (r, t') \<longrightarrow> queue_kept t t'"
    and "effect_refresh fuel E e s = Some (r, s')"
  shows "queue_kept s s'"
proof (cases fuel)
  case 0
  with assms(3) show ?thesis by simp
next
  case (Suc n)
  with assms(3) show ?thesis
    by (auto intro: effect_refresh_body_queue_kept [OF assms(1,2)])
qed

subsection \<open>A wave runs through the queue in link order\<close>

lemma wave_Suc:
  "wave (Suc fuel) rf er (Some e) error s =
     (case visit rf er e error s of
        None \<Rightarrow> None
      | Some (error', s') \<Rightarrow> wave fuel rf er (next_batched_effect (nodes s e)) error' s')"
  by (auto simp: visit_def Let_def split: option.splits outcome.splits)

lemma visit_keeps:
  assumes client: "\<forall>d p t r t'. compute E d p t = Some (r, t') \<longrightarrow> queue_kept t t'"
    and cf: "\<forall>f t r t'. cleanup_fn E f t = Some (r, t') \<longrightarrow> queue_kept t t'"
    and v: "visit (refresh k E) (effect_refresh k E) e error s = Some (error', s')"
    and d: "1 \<le> batch_depth s"
  shows "1 \<le> batch_depth s' \<and> (\<forall>y n. y \<noteq> e \<and> parked y n s \<longrightarrow> parked y n s')"
proof -
  let ?fl = "flags (nodes s e) - {NOTIFIED}"
  let ?s1 = "upd_node e (\<lambda>n. n\<lparr>flags := ?fl, next_batched_effect := None\<rparr>) s"
  have k1: "batch_depth ?s1 = batch_depth s" "\<And>y n. y \<noteq> e \<Longrightarrow> parked y n s \<Longrightarrow> parked y n ?s1"
    by (simp_all add: upd_node_def parked_def)
  have "queue_kept ?s1 s'"
  proof (cases "DISPOSED \<notin> ?fl")
    case False
    with v have "s' = ?s1" by (auto simp: visit_def Let_def)
    then show ?thesis by (simp add: queue_kept_refl)
  next
    case True
    with v obtain stale s2 where
      st: "is_stale (refresh k E) e ?fl ?s1 = Some (stale, s2)"
      and rest: "s' = s2 \<or> (\<exists>r. effect_refresh k E e s2 = Some (r, s'))"
      unfolding visit_def Let_def
      by (auto split: option.splits if_splits outcome.splits)
    have a: "queue_kept ?s1 s2"
      using client st by (rule is_stale_queue_kept)
    from rest show ?thesis
    proof
      assume "s' = s2"
      with a show ?thesis by simp
    next
      assume "\<exists>r. effect_refresh k E e s2 = Some (r, s')"
      then obtain r where "effect_refresh k E e s2 = Some (r, s')" ..
      then have "queue_kept s2 s'"
        by (rule effect_refresh_queue_kept [OF client cf])
      with a show ?thesis by (rule queue_kept_trans)
    qed
  qed
  with k1 d show ?thesis by (auto dest!: queue_keptD)
qed

lemma linked_cong:
  "\<forall>x \<in> set xs. next_batched_effect (nodes s' x) = next_batched_effect (nodes s x) \<Longrightarrow>
   linked s' h xs = linked s h xs"
  by (induction xs arbitrary: h) auto

lemma wave_linked:
  assumes client: "\<forall>d p t r t'. compute E d p t = Some (r, t') \<longrightarrow> queue_kept t t'"
    and cf: "\<forall>f t r t'. cleanup_fn E f t = Some (r, t') \<longrightarrow> queue_kept t t'"
  shows "linked s h xs \<Longrightarrow> distinct xs \<Longrightarrow>
     \<forall>x \<in> set xs. kind (nodes s x) = KEffect \<and> NOTIFIED \<in> flags (nodes s x) \<Longrightarrow>
     1 \<le> batch_depth s \<Longrightarrow> length xs \<le> fuel \<Longrightarrow>
     wave fuel (refresh k E) (effect_refresh k E) h error s
       = visit_all (refresh k E) (effect_refresh k E) xs error s"
proof (induction xs arbitrary: fuel h error s)
  case Nil
  then show ?case by (cases fuel) simp_all
next
  case (Cons x xs)
  from Cons.prems(5) obtain n where fuel: "fuel = Suc n" and n: "length xs \<le> n"
    by (cases fuel) auto
  from Cons.prems(1) have h: "h = Some x"
    and l: "linked s (next_batched_effect (nodes s x)) xs" by simp_all
  have w: "wave fuel (refresh k E) (effect_refresh k E) h error s =
     (case visit (refresh k E) (effect_refresh k E) x error s of
        None \<Rightarrow> None
      | Some (error', s') \<Rightarrow>
          wave n (refresh k E) (effect_refresh k E) (next_batched_effect (nodes s x)) error' s')"
    unfolding fuel h by (rule wave_Suc)
  show ?case
  proof (cases "visit (refresh k E) (effect_refresh k E) x error s")
    case None
    then show ?thesis unfolding w by simp
  next
    case (Some p)
    obtain error' s' where p: "p = (error', s')" by (cases p)
    from visit_keeps [OF client cf Some [unfolded p] Cons.prems(4)]
    have d': "1 \<le> batch_depth s'"
      and keep: "\<And>y n. y \<noteq> x \<Longrightarrow> parked y n s \<Longrightarrow> parked y n s'" by blast+
    have each: "\<forall>y \<in> set xs. parked y (next_batched_effect (nodes s y)) s'"
    proof
      fix y assume y: "y \<in> set xs"
      with Cons.prems(2) have "y \<noteq> x" by auto
      moreover from y Cons.prems(3) have "parked y (next_batched_effect (nodes s y)) s"
        by (simp add: parked_def)
      ultimately show "parked y (next_batched_effect (nodes s y)) s'" by (rule keep)
    qed
    then have "linked s' (next_batched_effect (nodes s x)) xs"
      using l linked_cong [of xs s' s] by (simp add: parked_def)
    moreover have "distinct xs" using Cons.prems(2) by simp
    moreover have "\<forall>y \<in> set xs. kind (nodes s' y) = KEffect \<and> NOTIFIED \<in> flags (nodes s' y)"
      using each by (simp add: parked_def)
    ultimately have "wave n (refresh k E) (effect_refresh k E) (next_batched_effect (nodes s x)) error' s'
       = visit_all (refresh k E) (effect_refresh k E) xs error' s'"
      using d' n by (rule Cons.IH)
    then show ?thesis unfolding w by (simp add: Some p)
  qed
qed

subsection \<open>Notification pushes onto the head of the queue\<close>

lemma effect_notify_push:
  assumes "linked s (batched_effect s) xs"
    and "e \<notin> set xs"
    and "flags (nodes s e) \<inter> {NOTIFIED, RUNNING} = {}"
  shows "linked (effect_notify e f s) (batched_effect (effect_notify e f s)) (e # xs)"
proof -
  let ?s' = "effect_notify e f s"
  have n: "\<forall>x \<in> set xs. next_batched_effect (nodes ?s' x) = next_batched_effect (nodes s x)"
    using assms(2) by (auto simp: effect_notify_def upd_node_def)
  have "batched_effect ?s' = Some e" "next_batched_effect (nodes ?s' e) = batched_effect s"
    using assms(3) by (simp_all add: effect_notify_def upd_node_def)
  then show ?thesis using assms(1) linked_cong [OF n] by simp
qed

lemma effect_notify_others:
  "y \<noteq> e \<Longrightarrow> nodes (effect_notify e f s) y = nodes s y"
  "batch_depth (effect_notify e f s) = batch_depth s"
  "flags (nodes s e) \<inter> {NOTIFIED, RUNNING} = {} \<Longrightarrow> NOTIFIED \<in> flags (nodes (effect_notify e f s) e)"
  "kind (nodes (effect_notify e f s) y) = kind (nodes s y)"
  by (auto simp: effect_notify_def upd_node_def)

lemma fold_notify_other:
  "y \<notin> set es \<Longrightarrow> nodes (fold (\<lambda>e. effect_notify e (fl e)) es t) y = nodes t y"
  by (induction es arbitrary: t) (simp_all add: effect_notify_others(1))

lemma notify_in_order:
  "linked s (batched_effect s) xs \<Longrightarrow> distinct es \<Longrightarrow> set es \<inter> set xs = {} \<Longrightarrow>
   \<forall>e \<in> set es. flags (nodes s e) \<inter> {NOTIFIED, RUNNING} = {} \<Longrightarrow>
   linked (fold (\<lambda>e. effect_notify e (fl e)) es s)
     (batched_effect (fold (\<lambda>e. effect_notify e (fl e)) es s)) (rev es @ xs)
   \<and> (\<forall>e \<in> set es. NOTIFIED \<in> flags (nodes (fold (\<lambda>e. effect_notify e (fl e)) es s) e))"
proof (induction es arbitrary: s xs)
  case Nil
  then show ?case by simp
next
  case (Cons e es)
  let ?s1 = "effect_notify e (fl e) s"
  have e: "e \<notin> set xs" "e \<notin> set es" "flags (nodes s e) \<inter> {NOTIFIED, RUNNING} = {}"
    using Cons.prems by auto
  have a: "linked ?s1 (batched_effect ?s1) (e # xs)"
    using Cons.prems(1) e(1,3) by (rule effect_notify_push)
  have b: "set es \<inter> set (e # xs) = {}" using Cons.prems(2,3) by auto
  have c: "\<forall>x \<in> set es. flags (nodes ?s1 x) \<inter> {NOTIFIED, RUNNING} = {}"
  proof
    fix x assume x: "x \<in> set es"
    with e(2) have "x \<noteq> e" by auto
    then have "nodes ?s1 x = nodes s x" by (rule effect_notify_others(1))
    with x Cons.prems(4) show "flags (nodes ?s1 x) \<inter> {NOTIFIED, RUNNING} = {}" by simp
  qed
  from Cons.IH [OF a _ b c] Cons.prems(2)
  have ih: "linked (fold (\<lambda>e. effect_notify e (fl e)) es ?s1)
     (batched_effect (fold (\<lambda>e. effect_notify e (fl e)) es ?s1)) (rev es @ e # xs)"
    and n: "\<forall>x \<in> set es. NOTIFIED \<in> flags (nodes (fold (\<lambda>e. effect_notify e (fl e)) es ?s1) x)"
    by simp_all
  have keep: "\<And>t. e \<notin> set es \<Longrightarrow>
      nodes (fold (\<lambda>e. effect_notify e (fl e)) es t) e = nodes t e"
    by (rule fold_notify_other)
  have "NOTIFIED \<in> flags (nodes (fold (\<lambda>e. effect_notify e (fl e)) es ?s1) e)"
    using keep [OF e(2), of ?s1] e(3) by (simp add: effect_notify_others(3))
  with ih n show ?case by simp
qed

lemma fold_notify_frame:
  "kind (nodes (fold (\<lambda>e. effect_notify e (fl e)) es s) y) = kind (nodes s y)"
  "batch_depth (fold (\<lambda>e. effect_notify e (fl e)) es s) = batch_depth s"
  by (induction es arbitrary: s) (simp_all add: effect_notify_others)

lemma linked_head: "linked s h xs \<Longrightarrow> xs \<noteq> [] \<Longrightarrow> h = Some (hd xs)"
  by (cases xs) simp_all

lemma drain_Suc:
  "batched_effect s = Some e \<Longrightarrow>
   drain (Suc fuel) w error s =
     (case w (Some e) error
             (s\<lparr>batched_effect := None, batch_iteration := batch_iteration s + 1\<rparr>) of
        None \<Rightarrow> None
      | Some (error', s') \<Rightarrow> drain fuel w error' s')"
  by simp

lemma end_batch_outermost:
  "batch_depth s \<le> 1 \<Longrightarrow>
   end_batch fuel E s =
     (case drain fuel (wave fuel (refresh fuel E) (effect_refresh fuel E)) None s of
        None \<Rightarrow> None
      | Some (error, s1) \<Rightarrow>
          let s2 = s1\<lparr>batch_iteration := 0, batch_depth := batch_depth s1 - 1\<rparr>
          in (case error of None \<Rightarrow> Some (Returns (), s2) | Some x \<Rightarrow> Some (Throws x, s2)))"
  by (simp add: end_batch_def end_batch_with_def)

text \<open>
  C7. Effects that are notified one after the other, none of them notified or running
  before, starting from an empty queue, are linked in the reverse of that order:
  \<open>effect_notify\<close> pushes onto the head. The drain loop of \<open>end_batch\<close>, started on
  that queue, takes the head, clears the head variable, counts the iteration and runs
  the loop body for each effect in link order, so the effect notified last is processed
  first; what the effects notify meanwhile is left to the later waves of the same drain.
  The outermost \<open>end_batch\<close> is this drain, followed by the reset of the iteration
  counter, the decrement of the depth and the throw of the remembered error. This holds
  for client functions that keep the queue: they do not lower the batch depth and leave
  every waiting effect waiting with its link.
\<close>

theorem end_batch_reverse_notification_order:
  assumes "\<forall>d p t r t'. compute E d p t = Some (r, t') \<longrightarrow> queue_kept t t'"
    and "\<forall>f t r t'. cleanup_fn E f t = Some (r, t') \<longrightarrow> queue_kept t t'"
    and "batched_effect s = None"
    and "distinct es"
    and "es \<noteq> []"
    and "\<forall>e \<in> set es. kind (nodes s e) = KEffect \<and> flags (nodes s e) \<inter> {NOTIFIED, RUNNING} = {}"
    and "batch_depth s = 1"
    and "length es \<le> Suc n"
  shows "let q = fold (\<lambda>e. effect_notify e (fl e)) es s;
             q' = q\<lparr>batched_effect := None, batch_iteration := batch_iteration q + 1\<rparr>;
             rf = refresh (Suc n) E;
             er = effect_refresh (Suc n) E
         in linked q (batched_effect q) (rev es)
            \<and> (\<forall>error.
                 drain (Suc n) (wave (Suc n) rf er) error q =
                   (case visit_all rf er (rev es) error q' of
                      None \<Rightarrow> None
                    | Some (error', s') \<Rightarrow> drain n (wave (Suc n) rf er) error' s'))
            \<and> end_batch (Suc n) E q =
                 (case visit_all rf er (rev es) None q' of
                    None \<Rightarrow> None
                  | Some (error', s') \<Rightarrow>
                      (case drain n (wave (Suc n) rf er) error' s' of
                         None \<Rightarrow> None
                       | Some (error, s1) \<Rightarrow>
                           let s2 = s1\<lparr>batch_iteration := 0, batch_depth := batch_depth s1 - 1\<rparr>
                           in (case error of
                                 None \<Rightarrow> Some (Returns (), s2)
                               | Some x \<Rightarrow> Some (Throws x, s2))))"
proof -
  let ?q = "fold (\<lambda>e. effect_notify e (fl e)) es s"
  let ?q' = "?q\<lparr>batched_effect := None, batch_iteration := batch_iteration ?q + 1\<rparr>"
  let ?rf = "refresh (Suc n) E"
  let ?er = "effect_refresh (Suc n) E"
  let ?w = "wave (Suc n) ?rf ?er"
  have start: "linked s (batched_effect s) []" using assms(3) by simp
  from notify_in_order [OF start assms(4), of fl] assms(6)
  have l: "linked ?q (batched_effect ?q) (rev es)"
    and nt: "\<forall>e \<in> set es. NOTIFIED \<in> flags (nodes ?q e)" by simp_all
  have l': "linked ?q' (batched_effect ?q) (rev es)"
    using l linked_cong [of "rev es" ?q' ?q] by simp
  have each: "\<forall>x \<in> set (rev es). kind (nodes ?q' x) = KEffect \<and> NOTIFIED \<in> flags (nodes ?q' x)"
    using nt assms(6) by (simp add: fold_notify_frame)
  have d: "1 \<le> batch_depth ?q'" using assms(7) by (simp add: fold_notify_frame)
  have w: "?w (batched_effect ?q) error ?q' = visit_all ?rf ?er (rev es) error ?q'" for error
    using l' _ each d
    by (rule wave_linked [OF assms(1,2)]) (use assms(4,8) in simp_all)
  from l assms(5) have h: "batched_effect ?q = Some (hd (rev es))"
    by (simp add: linked_head)
  have dr: "drain (Suc n) ?w error ?q =
              (case visit_all ?rf ?er (rev es) error ?q' of
                 None \<Rightarrow> None
               | Some (error', s') \<Rightarrow> drain n ?w error' s')" for error
    unfolding drain_Suc [OF h] w [of error, unfolded h] ..
  have depth: "batch_depth ?q \<le> 1" using assms(7) by (simp add: fold_notify_frame)
  have eb: "end_batch (Suc n) E ?q =
              (case visit_all ?rf ?er (rev es) None ?q' of
                 None \<Rightarrow> None
               | Some (error', s') \<Rightarrow>
                   (case drain n ?w error' s' of
                      None \<Rightarrow> None
                    | Some (error, s1) \<Rightarrow>
                        let s2 = s1\<lparr>batch_iteration := 0, batch_depth := batch_depth s1 - 1\<rparr>
                        in (case error of
                              None \<Rightarrow> Some (Returns (), s2)
                            | Some x \<Rightarrow> Some (Throws x, s2))))"
    unfolding end_batch_outermost [OF depth] dr [of None]
    by (simp split: option.splits prod.splits)
  from l dr eb show ?thesis unfolding Let_def by blast
qed

lemma signal_get_queue_kept: "queue_kept t (snd (signal_get x t))"
  by (auto simp: queue_kept_def parked_def signal_get_def upd_node_def Let_def
      split: option.splits)

lemma readers_keep:
  "\<forall>d p t r t'. compute readers d p t = Some (r, t') \<longrightarrow> queue_kept t t'"
  "\<forall>f t r t'. cleanup_fn readers f t = Some (r, t') \<longrightarrow> queue_kept t t'"
proof -
  show "\<forall>d p t r t'. compute readers d p t = Some (r, t') \<longrightarrow> queue_kept t t'"
  proof (intro allI impI)
    fix d p t r t'
    assume "compute readers d p t = Some (r, t')"
    then have "t' = snd (signal_get 0 t)" by (auto simp: readers_def split_beta)
    then show "queue_kept t t'" by (simp add: signal_get_queue_kept)
  qed
  show "\<forall>f t r t'. cleanup_fn readers f t = Some (r, t') \<longrightarrow> queue_kept t t'"
    by (simp add: readers_def)
qed

theorem end_batch_reverse_notification_order_witness:
  "queue_keeping readers
   \<and> batched_effect subscribers3 = None \<and> distinct [1, 2, 3::nat] \<and> [1, 2, 3::nat] \<noteq> []
   \<and> list_all (\<lambda>e. kind (nodes subscribers3 e) = KEffect
         \<and> flags (nodes subscribers3 e) \<inter> {NOTIFIED, RUNNING} = {}) [1, 2, 3]
   \<and> batch_depth subscribers3 = 1
   \<and> (let q = fold (\<lambda>e. effect_notify e DIRTY) [1, 2, 3] subscribers3
       in linked q (batched_effect q) [3, 2, 1]
          \<and> (case end_batch (Suc (Suc (Suc 0))) readers q of
                Some (Returns _, s') \<Rightarrow>
                  context_epoch (nodes s' 3) = 0 \<and> context_epoch (nodes s' 2) = 1
                  \<and> context_epoch (nodes s' 1) = 2
                  \<and> stored (nodes s' 1) = Num 5
                  \<and> batched_effect s' = None \<and> batch_depth s' = 0
              | _ \<Rightarrow> False))"
proof -
  let ?q = "fold (\<lambda>e. effect_notify e DIRTY) [1, 2, 3] subscribers3"
  let ?q' = "?q\<lparr>batched_effect := None, batch_iteration := batch_iteration ?q + 1\<rparr>"
  let ?rf = "refresh (Suc (Suc (Suc 0))) readers"
  let ?er = "effect_refresh (Suc (Suc (Suc 0))) readers"
  let ?rest = "\<lambda>error' s'.
     (case drain (Suc (Suc 0)) (wave (Suc (Suc (Suc 0))) ?rf ?er) error' s' of
        None \<Rightarrow> None
      | Some (error, s1) \<Rightarrow>
          let s2 = s1\<lparr>batch_iteration := 0, batch_depth := batch_depth s1 - 1\<rparr>
          in (case error of
                None \<Rightarrow> Some (Returns (), s2)
              | Some x \<Rightarrow> Some (Throws x, s2)))"
  have h: "batched_effect subscribers3 = None" "distinct [1, 2, 3::nat]" "[1, 2, 3::nat] \<noteq> []"
    "\<forall>e \<in> set [1, 2, 3]. kind (nodes subscribers3 e) = KEffect
         \<and> flags (nodes subscribers3 e) \<inter> {NOTIFIED, RUNNING} = {}"
    "batch_depth subscribers3 = 1" "length [1, 2, 3::nat] \<le> Suc (Suc (Suc 0))"
    by (simp_all add: subscribers3_def scenario_defs)
  have r: "rev [1, 2, 3::nat] = [3, 2, 1]" by simp
  from end_batch_reverse_notification_order [OF readers_keep h, of "\<lambda>_. DIRTY"]
  have l: "linked ?q (batched_effect ?q) [3, 2, 1]"
    and e: "end_batch (Suc (Suc (Suc 0))) readers ?q =
              (case visit_all ?rf ?er [3, 2, 1] None ?q' of
                 None \<Rightarrow> None
               | Some (error', s') \<Rightarrow> ?rest error' s')"
    unfolding Let_def r by blast+
  have "case (case visit_all ?rf ?er [3, 2, 1] None ?q' of
                None \<Rightarrow> None
              | Some (error', s') \<Rightarrow> ?rest error' s') of
          Some (Returns _, s') \<Rightarrow>
            context_epoch (nodes s' 3) = 0 \<and> context_epoch (nodes s' 2) = 1
            \<and> context_epoch (nodes s' 1) = 2
            \<and> stored (nodes s' 1) = Num 5
            \<and> batched_effect s' = None \<and> batch_depth s' = 0
        | _ \<Rightarrow> False"
    by (simp add: visit_def readers_def subscribers3_def scenario_defs)
  then have c: "case end_batch (Suc (Suc (Suc 0))) readers ?q of
          Some (Returns _, s') \<Rightarrow>
            context_epoch (nodes s' 3) = 0 \<and> context_epoch (nodes s' 2) = 1
            \<and> context_epoch (nodes s' 1) = 2
            \<and> stored (nodes s' 1) = Num 5
            \<and> batched_effect s' = None \<and> batch_depth s' = 0
        | _ \<Rightarrow> False"
    unfolding e .
  have k: "queue_keeping readers"
    unfolding queue_keeping_def using readers_keep by blast
  have a: "list_all (\<lambda>e. kind (nodes subscribers3 e) = KEffect
         \<and> flags (nodes subscribers3 e) \<inter> {NOTIFIED, RUNNING} = {}) [1, 2, 3]"
    using h(4) unfolding list_all_iff .
  show ?thesis unfolding Let_def using l k a h(1,2,3,5) c by blast
qed

end
